theory Spec2Isabelle
  imports Main
begin

section \<open>Provider payloads\<close>

text \<open>
  Every provider response is the result of \<^verbatim>\<open>JSON.parse\<close>, so it is an arbitrary JSON
  value. A number is carried by the text JavaScript prints for it (zero is \<open>''0''\<close>);
  a string is a list of code units, here the ones below 256 (\<open>char\<close>); an object is its
  list of members in source order
  (\<^verbatim>\<open>JSON.parse\<close> lets the last duplicate key win). The value \<^verbatim>\<open>undefined\<close> is
  \<open>None\<close> of \<open>json option\<close>.
\<close>

datatype json =
    JNull
  | JBool bool
  | JNum string
  | JStr string
  | JArr "json list"
  | JObj "(string \<times> json) list"

datatype error = RequestFailed | TypeError | NoMeetingLink

fun truthy :: "json \<Rightarrow> bool" where
  "truthy JNull = False"
| "truthy (JBool b) = b"
| "truthy (JNum n) = (n \<noteq> ''0'')"
| "truthy (JStr s) = (s \<noteq> [])"
| "truthy (JArr xs) = True"
| "truthy (JObj fs) = True"

fun truthyo :: "json option \<Rightarrow> bool" where
  "truthyo None = False"
| "truthyo (Some v) = truthy v"

fun isArray :: "json option \<Rightarrow> bool" where
  "isArray (Some (JArr xs)) = True"
| "isArray _ = False"

fun isString :: "json option \<Rightarrow> bool" where
  "isString (Some (JStr s)) = True"
| "isString _ = False"

fun elems :: "json option \<Rightarrow> json list" where
  "elems (Some (JArr xs)) = xs"
| "elems _ = []"

text \<open>
  \<open>propOf v k\<close> is the property read \<^verbatim>\<open>v.k\<close> on a value that is not \<^verbatim>\<open>null\<close>, for the
  keys this code reads (none of them is a built-in property of strings, arrays, numbers or
  booleans); \<open>get\<close> adds the \<^verbatim>\<open>TypeError\<close> of a read on \<^verbatim>\<open>null\<close> or \<^verbatim>\<open>undefined\<close>.
\<close>

fun propOf :: "json \<Rightarrow> string \<Rightarrow> json option" where
  "propOf (JObj fs) k = map_of (rev fs) k"
| "propOf _ k = None"

fun get :: "json option \<Rightarrow> string \<Rightarrow> error + json option" where
  "get None k = Inl TypeError"
| "get (Some JNull) k = Inl TypeError"
| "get (Some v) k = Inr (propOf v k)"

text \<open>\<^verbatim>\<open>a || b\<close> with a constant right operand.\<close>

fun orElse :: "json option \<Rightarrow> json \<Rightarrow> json" where
  "orElse None d = d"
| "orElse (Some v) d = (if truthy v then v else d)"

text \<open>\<^verbatim>\<open>v === 'lit'\<close> and \<^verbatim>\<open>[...].includes(v)\<close> for string literals.\<close>

fun strictEq :: "json option \<Rightarrow> string \<Rightarrow> bool" where
  "strictEq (Some (JStr s)) lit = (s = lit)"
| "strictEq _ lit = False"

fun includes_lit :: "string list \<Rightarrow> json option \<Rightarrow> bool" where
  "includes_lit lits (Some (JStr s)) = (s \<in> set lits)"
| "includes_lit lits _ = False"

section \<open>Tables\<close>

text \<open>
  Rows of \<^verbatim>\<open>recall_bots\<close> and \<^verbatim>\<open>meetings\<close> (shared/schema.ts), and of
  \<^verbatim>\<open>calendar_events\<close> the columns that the toggle handler and \<^verbatim>\<open>createBot\<close> read.
  The columns \<^verbatim>\<open>createdAt\<close> and \<^verbatim>\<open>updatedAt\<close> are left out: nothing below reads them.
  Timestamps are milliseconds since the epoch. A table is the list of its rows, kept
  in the order of their insertion; an update rewrites the row where it stands. The list
  says which rows there are, not in which order the database returns them: that order
  is a parameter, given below.
\<close>

record bot =
  b_id :: nat
  b_userId :: nat
  b_calendarEventId :: nat
  b_recallBotId :: string
  b_status :: string

record meeting =
  m_id :: nat
  m_userId :: nat
  m_calendarEventId :: nat
  m_recallBotId :: "nat option"
  m_title :: string
  m_startTime :: int
  m_endTime :: "int option"
  m_platform :: "string option"
  m_transcript :: "string option"
  m_attendees :: "json option"
  m_status :: string

record event =
  e_id :: nat
  e_title :: string
  e_startTime :: int
  e_endTime :: "int option"
  e_platform :: "string option"
  e_attendees :: "json option"
  e_meetingLink :: "string option"

text \<open>The \<^verbatim>\<open>Partial<InsertMeeting>\<close> objects that the code passes to \<^verbatim>\<open>updateMeeting\<close>.\<close>

record meeting_patch =
  p_status :: "string option"
  p_transcript :: "string option"
  p_recallBotId :: "nat option"

datatype endpoint =
    PostBot string string int
  | GetBot string
  | BotTranscript string
  | BotTranscriptSlash string
  | RecordingTranscript "json option"

datatype db_write =
    CreateMeeting nat
  | CreateRecallBot nat
  | UpdateRecallBot nat string
  | UpdateMeeting nat meeting_patch

text \<open>
  The state: both tables with their \<^verbatim>\<open>serial\<close> counters, the log of storage writes
  and the log of provider requests. Storage calls are taken to succeed.
\<close>

record world =
  bots :: "bot list"
  meetings :: "meeting list"
  nextBotId :: nat
  nextMeetingId :: nat
  writes :: "db_write list"
  requests :: "endpoint list"

definition init :: world where
  "init = \<lparr>bots = [], meetings = [], nextBotId = 1, nextMeetingId = 1,
            writes = [], requests = []\<rparr>"

text \<open>
  The provider is an oracle: the answer to a request may depend on the endpoint and on
  how many requests were made before, so two reads of the same endpoint may differ.
  \<open>Inl\<close> is the exception \<^verbatim>\<open>request\<close> throws (transport failure, non-2xx status,
  body that is not JSON).
\<close>

type_synonym provider = "nat \<Rightarrow> endpoint \<Rightarrow> error + json"

text \<open>
  What the code relies on and the repository does not define is a parameter as well.
  Two operations of the JavaScript runtime: \<open>dateMs v\<close> is
  \<^verbatim>\<open>new Date(v).getTime()\<close> (\<open>None\<close> for \<^verbatim>\<open>NaN\<close>), and \<open>objLast fs\<close> is
  \<^verbatim>\<open>o[o.length - 1]\<close> for an object \<open>o\<close> with the members \<open>fs\<close> that is not an array.
  And the order of the rows of a \<^verbatim>\<open>select\<close> without \<^verbatim>\<open>ORDER BY\<close>, which the code
  does not fix and which the database may change with every write: \<open>botScan rt w i\<close>
  and \<open>meetingScan rt w i\<close> are the places, in state \<open>w\<close>, of the rows with primary key
  \<open>i\<close> in a scan of \<^verbatim>\<open>recall_bots\<close> and of \<^verbatim>\<open>meetings\<close>; a \<^verbatim>\<open>select\<close> returns its
  rows by ascending place. The places may depend on everything in the state, the log of
  writes included.
\<close>

record runtime =
  dateMs :: "json option \<Rightarrow> int option"
  objLast :: "(string \<times> json) list \<Rightarrow> json option"
  botScan :: "world \<Rightarrow> nat \<Rightarrow> nat"
  meetingScan :: "world \<Rightarrow> nat \<Rightarrow> nat"

definition request :: "provider \<Rightarrow> endpoint \<Rightarrow> world \<Rightarrow> (error + json) \<times> world" where
  "request prov ep w =
     (prov (length (requests w)) ep, w\<lparr>requests := requests w @ [ep]\<rparr>)"

definition getBotStatus :: "provider \<Rightarrow> string \<Rightarrow> world \<Rightarrow> (error + json) \<times> world" where
  "getBotStatus prov botId w = request prov (GetBot botId) w"

subsection \<open>Storage (DatabaseStorage)\<close>

text \<open>
  \<^verbatim>\<open>db.select().from(table).where(condition)\<close>: the rows that satisfy the condition,
  in the order of the scan.
\<close>

definition selectRecallBots :: "runtime \<Rightarrow> (bot \<Rightarrow> bool) \<Rightarrow> world \<Rightarrow> bot list" where
  "selectRecallBots rt condition w =
     sort_key (\<lambda>b. botScan rt w (b_id b)) (filter condition (bots w))"

definition selectMeetings :: "runtime \<Rightarrow> (meeting \<Rightarrow> bool) \<Rightarrow> world \<Rightarrow> meeting list" where
  "selectMeetings rt condition w =
     sort_key (\<lambda>m. meetingScan rt w (m_id m)) (filter condition (meetings w))"

text \<open>
  The getters destructure the first row of such a \<^verbatim>\<open>select\<close>. A primary key matches at
  most one row, and of \<^verbatim>\<open>getRecallBotByCalendarEventId\<close> the code uses only whether a
  row came back, which no order changes; these are read off the list. Which meeting
  \<^verbatim>\<open>getMeetingByCalendarEventId\<close> answers when an event has several depends on the scan.
  An insert or an update changes the list only; where the database puts the new or the
  rewritten row in the scans that follow is what \<open>botScan\<close> and \<open>meetingScan\<close> say of the
  new state.
\<close>

definition getRecallBot :: "nat \<Rightarrow> world \<Rightarrow> bot option" where
  "getRecallBot i w = find (\<lambda>b. b_id b = i) (bots w)"

definition getRecallBotByCalendarEventId :: "nat \<Rightarrow> world \<Rightarrow> bot option" where
  "getRecallBotByCalendarEventId calendarEventId w =
     find (\<lambda>b. b_calendarEventId b = calendarEventId) (bots w)"

definition createRecallBot :: "nat \<Rightarrow> nat \<Rightarrow> string \<Rightarrow> string \<Rightarrow> world \<Rightarrow> bot \<times> world" where
  "createRecallBot userId calendarEventId recallBotId status w =
     (let newBot = \<lparr>b_id = nextBotId w, b_userId = userId,
                     b_calendarEventId = calendarEventId,
                     b_recallBotId = recallBotId, b_status = status\<rparr>
      in (newBot, w\<lparr>bots := bots w @ [newBot], nextBotId := Suc (nextBotId w),
                     writes := writes w @ [CreateRecallBot (nextBotId w)]\<rparr>))"

definition updateRecallBot :: "nat \<Rightarrow> string \<Rightarrow> world \<Rightarrow> bot option \<times> world" where
  "updateRecallBot i status w =
     (let bs = map (\<lambda>b. if b_id b = i then b\<lparr>b_status := status\<rparr> else b) (bots w)
      in (find (\<lambda>b. b_id b = i) bs,
          w\<lparr>bots := bs, writes := writes w @ [UpdateRecallBot i status]\<rparr>))"

definition getMeeting :: "nat \<Rightarrow> world \<Rightarrow> meeting option" where
  "getMeeting i w = find (\<lambda>m. m_id m = i) (meetings w)"

definition getMeetingByCalendarEventId :: "runtime \<Rightarrow> nat \<Rightarrow> world \<Rightarrow> meeting option" where
  "getMeetingByCalendarEventId rt calendarEventId w =
     (case selectMeetings rt (\<lambda>m. m_calendarEventId m = calendarEventId) w of
        [] \<Rightarrow> None
      | meeting # rest \<Rightarrow> Some meeting)"

definition createMeeting :: "nat \<Rightarrow> event \<Rightarrow> string \<Rightarrow> world \<Rightarrow> meeting \<times> world" where
  "createMeeting userId ev status w =
     (let m = \<lparr>m_id = nextMeetingId w, m_userId = userId, m_calendarEventId = e_id ev,
                m_recallBotId = None, m_title = e_title ev, m_startTime = e_startTime ev,
                m_endTime = e_endTime ev, m_platform = e_platform ev,
                m_transcript = None, m_attendees = e_attendees ev, m_status = status\<rparr>
      in (m, w\<lparr>meetings := meetings w @ [m], nextMeetingId := Suc (nextMeetingId w),
                writes := writes w @ [CreateMeeting (nextMeetingId w)]\<rparr>))"

definition applyPatch :: "meeting_patch \<Rightarrow> meeting \<Rightarrow> meeting" where
  "applyPatch p m =
     m\<lparr>m_status := (case p_status p of None \<Rightarrow> m_status m | Some s \<Rightarrow> s),
       m_transcript := (case p_transcript p of None \<Rightarrow> m_transcript m | Some t \<Rightarrow> Some t),
       m_recallBotId := (case p_recallBotId p of None \<Rightarrow> m_recallBotId m | Some b \<Rightarrow> Some b)\<rparr>"

definition updateMeeting :: "nat \<Rightarrow> meeting_patch \<Rightarrow> world \<Rightarrow> world" where
  "updateMeeting i p w =
     w\<lparr>meetings := map (\<lambda>m. if m_id m = i then applyPatch p m else m) (meetings w),
       writes := writes w @ [UpdateMeeting i p]\<rparr>"

definition noPatch :: meeting_patch where
  "noPatch = \<lparr>p_status = None, p_transcript = None, p_recallBotId = None\<rparr>"

section \<open>RecallService.updateBotStatus\<close>

text \<open>The chain of comparisons that maps the latest provider code; \<open>status\<close> starts as
  the bot's stored status and is kept when no branch fires.\<close>

definition mapStatus :: "json option \<Rightarrow> string \<Rightarrow> string" where
  "mapStatus latestStatus status =
     (if strictEq latestStatus ''ready'' then ''scheduled''
      else if includes_lit [''joining_call'', ''in_waiting_room''] latestStatus then ''joining''
      else if includes_lit [''in_call_not_recording'', ''in_call_recording''] latestStatus
        then ''recording''
      else if includes_lit [''call_ended'', ''recording_done'', ''done''] latestStatus
        then ''completed''
      else if includes_lit [''failed'', ''error''] latestStatus then ''failed''
      else status)"

text \<open>
  The result is the returned record (\<open>None\<close> when \<^verbatim>\<open>updateRecallBot\<close> finds no row and
  returns \<^verbatim>\<open>undefined\<close>). Every exception inside is caught and answers the argument.
\<close>

definition updateBotStatus :: "provider \<Rightarrow> bot \<Rightarrow> world \<Rightarrow> bot option \<times> world" where
  "updateBotStatus prov recallBot w =
     (case getBotStatus prov (b_recallBotId recallBot) w of
        (Inl e, w1) \<Rightarrow> (Some recallBot, w1)
      | (Inr botStatus, w1) \<Rightarrow>
          (case get (Some botStatus) ''status_changes'' of
             Inl e \<Rightarrow> (Some recallBot, w1)
           | Inr status_changes \<Rightarrow>
               if \<not> truthyo status_changes \<or> \<not> isArray status_changes
                  \<or> length (elems status_changes) = 0
               then (Some recallBot, w1)
               else
                 (case get (Some (last (elems status_changes))) ''code'' of
                    Inl e \<Rightarrow> (Some recallBot, w1)
                  | Inr latestStatus \<Rightarrow>
                      (let status = mapStatus latestStatus (b_status recallBot)
                       in if status \<noteq> b_status recallBot
                          then updateRecallBot (b_id recallBot) status w1
                          else (Some recallBot, w1)))))"

section \<open>RecallService.getTranscript\<close>

text \<open>
  \<^verbatim>\<open>String(v)\<close> as \<^verbatim>\<open>Array.prototype.join\<close> applies it: \<^verbatim>\<open>null\<close> inside an array
  prints as the empty string.
\<close>

fun joinWith :: "string \<Rightarrow> string list \<Rightarrow> string" where
  "joinWith sep [] = []"
| "joinWith sep [x] = x"
| "joinWith sep (x # y # ys) = x @ sep @ joinWith sep (y # ys)"

fun toString :: "json \<Rightarrow> string" where
  "toString JNull = ''null''"
| "toString (JBool b) = (if b then ''true'' else ''false'')"
| "toString (JNum n) = n"
| "toString (JStr s) = s"
| "toString (JArr xs) = joinWith '','' (map (\<lambda>x. if x = JNull then [] else toString x) xs)"
| "toString (JObj fs) = ''[object Object]''"

text \<open>The characters \<^verbatim>\<open>trim\<close> strips, among the code units below 256.\<close>

definition is_ws :: "char \<Rightarrow> bool" where
  "is_ws c = (c \<in> set [CHR 0x09, CHR 0x0A, CHR 0x0B, CHR 0x0C, CHR 0x0D, CHR '' '', CHR 0xA0])"

definition blank :: "string \<Rightarrow> bool" where
  "blank s = list_all is_ws s"

text \<open>\<^verbatim>\<open>segment.text || segment.content || segment.transcript || ''\<close>; a \<^verbatim>\<open>null\<close> segment
  throws.\<close>

definition segText :: "json \<Rightarrow> error + json" where
  "segText segment =
     (if segment = JNull then Inl TypeError
      else Inr (orElse (propOf segment ''text'')
                 (orElse (propOf segment ''content'')
                   (orElse (propOf segment ''transcript'') (JStr [])))))"

fun mapSegs :: "json list \<Rightarrow> error + json list" where
  "mapSegs [] = Inr []"
| "mapSegs (x # xs) =
     (case segText x of
        Inl e \<Rightarrow> Inl e
      | Inr t \<Rightarrow> (case mapSegs xs of Inl e \<Rightarrow> Inl e | Inr ts \<Rightarrow> Inr (t # ts)))"

definition joinSegs :: "json list \<Rightarrow> error + string" where
  "joinSegs segs =
     (case mapSegs segs of Inl e \<Rightarrow> Inl e | Inr ts \<Rightarrow> Inr (joinWith '' '' (map toString ts)))"

text \<open>
  The body of the loop over the endpoints, after the request: \<open>Inr (Some v)\<close> is
  \<^verbatim>\<open>return v\<close>, \<open>Inr None\<close> falls out of the checks, \<open>Inl\<close> is an exception; the last
  two go on with the next endpoint.
\<close>

definition arrayShape :: "json option \<Rightarrow> error + json option" where
  "arrayShape v =
     (case joinSegs (elems v) of
        Inl e \<Rightarrow> Inl e
      | Inr fullTranscript \<Rightarrow>
          if \<not> blank fullTranscript then Inr (Some (JStr fullTranscript)) else Inr None)"

definition dataShape :: "json \<Rightarrow> error + json option" where
  "dataShape response =
     (if truthy response \<and> truthyo (propOf response ''data'')
      then (if isString (propOf response ''data'') then Inr (propOf response ''data'')
            else if isArray (propOf response ''data'') then arrayShape (propOf response ''data'')
            else Inr None)
      else Inr None)"

definition extractTranscript :: "json \<Rightarrow> error + json option" where
  "extractTranscript response =
     (if truthy response \<and> isString (Some response) then Inr (Some response)
      else if truthy response \<and> truthyo (propOf response ''transcript'')
        then Inr (propOf response ''transcript'')
      else if truthy response \<and> truthyo (propOf response ''text'')
        then Inr (propOf response ''text'')
      else if truthy response \<and> truthyo (propOf response ''content'')
        then Inr (propOf response ''content'')
      else if truthy response \<and> isArray (Some response)
        then (case arrayShape (Some response) of
                Inl e \<Rightarrow> Inl e
              | Inr (Some v) \<Rightarrow> Inr (Some v)
              | Inr None \<Rightarrow> dataShape response)
      else dataShape response)"

text \<open>The list \<^verbatim>\<open>transcriptEndpoints\<close>; \<open>rid\<close> is \<^verbatim>\<open>recording.id\<close>.\<close>

definition transcriptEndpoints :: "string \<Rightarrow> json option \<Rightarrow> endpoint list" where
  "transcriptEndpoints botId rid =
     [BotTranscript botId, BotTranscriptSlash botId, RecordingTranscript rid]"

fun tryEndpoints :: "provider \<Rightarrow> endpoint list \<Rightarrow> world \<Rightarrow> json option \<times> world" where
  "tryEndpoints prov [] w = (None, w)"
| "tryEndpoints prov (ep # eps) w =
     (case request prov ep w of
        (Inl e, w1) \<Rightarrow> tryEndpoints prov eps w1
      | (Inr response, w1) \<Rightarrow>
          (case extractTranscript response of
             Inr (Some v) \<Rightarrow> (Some v, w1)
           | Inr None \<Rightarrow> tryEndpoints prov eps w1
           | Inl e \<Rightarrow> tryEndpoints prov eps w1))"

text \<open>The result \<open>None\<close> is \<^verbatim>\<open>null\<close>; the outer \<^verbatim>\<open>catch\<close> turns every exception into it.\<close>

definition getTranscript :: "provider \<Rightarrow> string \<Rightarrow> world \<Rightarrow> json option \<times> world" where
  "getTranscript prov botId w =
     (case getBotStatus prov botId w of
        (Inl e, w1) \<Rightarrow> (None, w1)
      | (Inr botStatus, w1) \<Rightarrow>
          (case get (Some botStatus) ''status_changes'' of
             Inl e \<Rightarrow> (None, w1)
           | Inr sc \<Rightarrow>
               (let recordings = propOf botStatus ''recordings''
                in if \<not> truthyo recordings \<or> \<not> isArray recordings
                      \<or> length (elems recordings) = 0
                   then (None, w1)
                   else
                     (let recording = hd (elems recordings)
                      in case get (Some recording) ''id'' of
                           Inl e \<Rightarrow> (None, w1)
                         | Inr rid \<Rightarrow>
                             if \<not> truthyo (propOf recording ''transcription_completed_at'')
                             then (None, w1)
                             else tryEndpoints prov (transcriptEndpoints botId rid) w1))))"

section \<open>RecallService.processMeeting\<close>

text \<open>\<^verbatim>\<open>x[x.length - 1]\<close>, which the code applies to \<^verbatim>\<open>status_changes\<close> unguarded; on an
  object that is not an array the runtime answers.\<close>

fun lastEntry :: "runtime \<Rightarrow> json option \<Rightarrow> error + json option" where
  "lastEntry rt None = Inl TypeError"
| "lastEntry rt (Some JNull) = Inl TypeError"
| "lastEntry rt (Some (JArr xs)) = Inr (if xs = [] then None else Some (last xs))"
| "lastEntry rt (Some (JStr s)) = Inr (if s = [] then None else Some (JStr [last s]))"
| "lastEntry rt (Some (JObj fs)) = Inr (objLast rt fs)"
| "lastEntry rt (Some v) = Inr None"

text \<open>\<^verbatim>\<open>a?.k\<close>\<close>

fun optChain :: "json option \<Rightarrow> string \<Rightarrow> json option" where
  "optChain None k = None"
| "optChain (Some JNull) k = None"
| "optChain (Some v) k = propOf v k"

text \<open>
  The gates between the status read and the fetch: \<open>Inr True\<close> reaches the call of
  \<^verbatim>\<open>getTranscript\<close>, \<open>Inr False\<close> is one of the early returns, \<open>Inl\<close> an exception.
  A difference of timestamps is a whole number of milliseconds, so
  \<^verbatim>\<open>diff / (1000 * 60) < 2\<close> is \<open>diff < 2 * (1000 * 60)\<close>; with an invalid date the
  comparison is on \<^verbatim>\<open>NaN\<close> and false.
\<close>

definition readyToFetch :: "runtime \<Rightarrow> int \<Rightarrow> json \<Rightarrow> error + bool" where
  "readyToFetch rt now botStatus =
     (case get (Some botStatus) ''status_changes'' of
        Inl e \<Rightarrow> Inl e
      | Inr sc \<Rightarrow>
     (case lastEntry rt sc of
        Inl e \<Rightarrow> Inl e
      | Inr entry \<Rightarrow>
     (case get entry ''code'' of
        Inl e \<Rightarrow> Inl e
      | Inr latestStatus \<Rightarrow>
          if \<not> includes_lit [''done'', ''recording_done'', ''call_ended''] latestStatus
          then Inr False
          else
            (let recordings = propOf botStatus ''recordings''
             in if \<not> truthyo recordings \<or> \<not> isArray recordings
                   \<or> length (elems recordings) = 0
                then Inr False
                else
                  (let recording = hd (elems recordings)
                   in case get (Some recording) ''id'' of
                        Inl e \<Rightarrow> Inl e
                      | Inr rid \<Rightarrow>
                          if strictEq (optChain (propOf botStatus ''transcription_options'')
                                         ''provider'') ''none''
                          then Inr False
                          else if truthyo (propOf recording ''transcription_completed_at'')
                          then (case dateMs rt (propOf recording ''transcription_completed_at'') of
                                  None \<Rightarrow> Inr True
                                | Some completedAt \<Rightarrow>
                                    if now - completedAt < 2 * (1000 * 60)
                                    then Inr False else Inr True)
                          else (case dateMs rt (propOf recording ''completed_at'') of
                                  None \<Rightarrow> Inr True
                                | Some recordingCompletedAt \<Rightarrow>
                                    if now - recordingCompletedAt < 5 * (1000 * 60)
                                    then Inr False else Inr True))))))"

text \<open>
  \<^verbatim>\<open>transcript && transcript.trim()\<close>: a string with a character that \<^verbatim>\<open>trim\<close> keeps
  is stored; \<^verbatim>\<open>trim\<close> of a value that is not a string throws, and the \<^verbatim>\<open>catch\<close> ends
  the call.
\<close>

definition processMeeting :: "runtime \<Rightarrow> provider \<Rightarrow> int \<Rightarrow> bot \<Rightarrow> world \<Rightarrow> world" where
  "processMeeting rt prov now recallBot w =
     (if b_status recallBot \<noteq> ''completed'' then w
      else case getMeetingByCalendarEventId rt (b_calendarEventId recallBot) w of
        None \<Rightarrow> w
      | Some meeting \<Rightarrow>
          if \<not> (m_transcript meeting = None \<or> m_transcript meeting = Some []) then w
          else
            (case getBotStatus prov (b_recallBotId recallBot) w of
               (Inl e, w1) \<Rightarrow> w1
             | (Inr botStatus, w1) \<Rightarrow>
                 (case readyToFetch rt now botStatus of
                    Inl e \<Rightarrow> w1
                  | Inr False \<Rightarrow> w1
                  | Inr True \<Rightarrow>
                      (case getTranscript prov (b_recallBotId recallBot) w1 of
                         (Some (JStr transcript), w2) \<Rightarrow>
                           if transcript \<noteq> [] \<and> \<not> blank transcript
                           then updateMeeting (m_id meeting)
                                  \<lparr>p_status = Some ''completed'',
                                   p_transcript = Some transcript,
                                   p_recallBotId = None\<rparr> w2
                           else w2
                       | (other, w2) \<Rightarrow> w2))))"

section \<open>Recording setup (PATCH toggle-recording)\<close>

text \<open>
  \<^verbatim>\<open>RecallService.createBot\<close>. The argument \<open>resp\<close> is what the \<^verbatim>\<open>POST /bot\<close> request
  and the read of \<^verbatim>\<open>recallBot.id\<close> come to: \<open>Inl\<close> when the request throws or the
  response carries no id that the column \<^verbatim>\<open>recall_bot_id\<close> accepts, \<open>Inr s\<close> when the
  id is stored as \<open>s\<close>. The join time moves the start by whole minutes.
\<close>

definition joinMinutes :: "int option \<Rightarrow> int" where
  "joinMinutes botJoinMinutesBefore =
     (case botJoinMinutesBefore of None \<Rightarrow> 5 | Some n \<Rightarrow> if n = 0 then 5 else n)"

definition createBot ::
  "event \<Rightarrow> nat \<Rightarrow> int option \<Rightarrow> error + string \<Rightarrow> world \<Rightarrow> (error + bot) \<times> world" where
  "createBot calendarEvent userId botJoinMinutesBefore resp w =
     (if e_meetingLink calendarEvent = None \<or> e_meetingLink calendarEvent = Some []
      then (Inl NoMeetingLink, w)
      else
        (let meetingUrl = the (e_meetingLink calendarEvent);
             joinAt = e_startTime calendarEvent - joinMinutes botJoinMinutesBefore * 60000;
             w1 = w\<lparr>requests := requests w
                       @ [PostBot (''Meeting: '' @ e_title calendarEvent) meetingUrl joinAt]\<rparr>
         in case resp of
              Inl e \<Rightarrow> (Inl e, w1)
            | Inr recallBotId \<Rightarrow>
                (case createRecallBot userId (e_id calendarEvent) recallBotId ''scheduled'' w1 of
                   (b, w2) \<Rightarrow> (Inr b, w2))))"

definition setupRecording ::
  "event \<Rightarrow> nat \<Rightarrow> int option \<Rightarrow> int \<Rightarrow> error + string \<Rightarrow> world \<Rightarrow> world" where
  "setupRecording ev userId botJoinMinutesBefore now resp w =
     (case getRecallBotByCalendarEventId (e_id ev) w of
        Some existingBot \<Rightarrow> w
      | None \<Rightarrow>
          (let joinTime = e_startTime ev - joinMinutes botJoinMinutesBefore * 60000
           in if joinTime > now
              then
                (case createMeeting userId ev ''scheduled'' w of
                   (meeting, w1) \<Rightarrow>
                     (case createBot ev userId botJoinMinutesBefore resp w1 of
                        (Inr b, w2) \<Rightarrow>
                          updateMeeting (m_id meeting) (noPatch\<lparr>p_recallBotId := Some (b_id b)\<rparr>) w2
                      | (Inl e, w2) \<Rightarrow>
                          updateMeeting (m_id meeting)
                            (noPatch\<lparr>p_status := Some ''failed'',
                                     p_transcript := Some ''Failed to create recording bot''\<rparr>) w2))
              else w))"

text \<open>The handler from the write of the flag on; \<^verbatim>\<open>eventId\<close> is \<open>e_id ev\<close>.\<close>

definition toggleRecording ::
  "event \<Rightarrow> bool \<Rightarrow> nat \<Rightarrow> int option \<Rightarrow> int \<Rightarrow> error + string \<Rightarrow> world \<Rightarrow> world" where
  "toggleRecording ev isRecordingEnabled userId botJoinMinutesBefore now resp w =
     (if isRecordingEnabled \<and> e_id ev \<noteq> 0
      then setupRecording ev userId botJoinMinutesBefore now resp w
      else w)"

section \<open>The background sweep\<close>

definition propagate :: "string \<Rightarrow> string \<Rightarrow> string" where
  "propagate botStatus meetingStatus =
     (if botStatus = ''joined'' then ''in_progress''
      else if botStatus = ''recording'' then ''in_progress''
      else if botStatus = ''completed'' then ''completed''
      else if botStatus = ''failed'' then ''failed''
      else meetingStatus)"

text \<open>One round of the first loop; \<^verbatim>\<open>updatedBot.status\<close> on \<^verbatim>\<open>undefined\<close> throws into
  the \<^verbatim>\<open>catch\<close> of the round.\<close>

definition sweepBot :: "runtime \<Rightarrow> provider \<Rightarrow> bot \<Rightarrow> world \<Rightarrow> world" where
  "sweepBot rt prov b w =
     (let oldStatus = b_status b
      in case updateBotStatus prov b w of
           (None, w1) \<Rightarrow> w1
         | (Some updatedBot, w1) \<Rightarrow>
             if b_status updatedBot \<noteq> oldStatus
             then
               (case getMeetingByCalendarEventId rt (b_calendarEventId b) w1 of
                  None \<Rightarrow> w1
                | Some meeting \<Rightarrow>
                    (let meetingStatus = propagate (b_status updatedBot) (m_status meeting)
                     in if meetingStatus \<noteq> m_status meeting
                        then updateMeeting (m_id meeting)
                               (noPatch\<lparr>p_status := Some meetingStatus\<rparr>) w1
                        else w1))
             else w1)"

definition activeBots :: "runtime \<Rightarrow> world \<Rightarrow> bot list" where
  "activeBots rt w =
     selectRecallBots rt
       (\<lambda>b. b_status b \<in> set [''scheduled'', ''joined'', ''joining'', ''recording'']) w"

definition completedBots :: "runtime \<Rightarrow> world \<Rightarrow> bot list" where
  "completedBots rt w = selectRecallBots rt (\<lambda>b. b_status b = ''completed'') w"

text \<open>The clock is read once in a call of \<^verbatim>\<open>processMeeting\<close>; \<open>clock n\<close> is the time
  of the call that starts after \<open>n\<close> requests.\<close>

definition sweepCompleted :: "runtime \<Rightarrow> provider \<Rightarrow> (nat \<Rightarrow> int) \<Rightarrow> bot \<Rightarrow> world \<Rightarrow> world" where
  "sweepCompleted rt prov clock b w = processMeeting rt prov (clock (length (requests w))) b w"

definition sweep :: "runtime \<Rightarrow> provider \<Rightarrow> (nat \<Rightarrow> int) \<Rightarrow> world \<Rightarrow> world" where
  "sweep rt prov clock w =
     (let w1 = fold (sweepBot rt prov) (activeBots rt w) w
      in fold (sweepCompleted rt prov clock) (completedBots rt w1) w1)"

text \<open>
  The states the application reaches from empty tables: by the toggle handler, by a
  sweep, and by the manual fetch route, which runs \<^verbatim>\<open>processMeeting\<close> on a stored bot.
\<close>

inductive reachable :: "runtime \<Rightarrow> world \<Rightarrow> bool" for rt :: runtime where
  r_init: "reachable rt init"
| r_toggle: "reachable rt w \<Longrightarrow>
     reachable rt (toggleRecording ev isRecordingEnabled userId botJoinMinutesBefore now resp w)"
| r_sweep: "reachable rt w \<Longrightarrow> reachable rt (sweep rt prov clock w)"
| r_fetch: "reachable rt w \<Longrightarrow> b \<in> set (bots w) \<Longrightarrow>
     reachable rt (processMeeting rt prov now b w)"

section \<open>The specification's tables and sample data\<close>

text \<open>
  The status table of the specification (section 4.2), written from its words: a code
  of the table gives its application status, every other value keeps the current one.
\<close>

definition tableStatus :: "json option \<Rightarrow> string \<Rightarrow> string" where
  "tableStatus code current =
     (case code of
        Some (JStr c) \<Rightarrow>
          if c = ''ready'' then ''scheduled''
          else if c = ''joining_call'' \<or> c = ''in_waiting_room'' then ''joining''
          else if c = ''in_call_not_recording'' \<or> c = ''in_call_recording'' then ''recording''
          else if c = ''call_ended'' \<or> c = ''recording_done'' \<or> c = ''done'' then ''completed''
          else if c = ''failed'' \<or> c = ''error'' then ''failed''
          else current
      | _ \<Rightarrow> current)"

text \<open>The order \<open>scheduled \<rightarrow> joining \<rightarrow> recording \<rightarrow> {completed | failed}\<close> of bot
  statuses and \<open>scheduled \<rightarrow> in_progress \<rightarrow> {completed | failed}\<close> of meeting statuses.\<close>

definition botRank :: "string \<Rightarrow> nat" where
  "botRank s =
     (if s = ''scheduled'' then 0
      else if s = ''joining'' then 1
      else if s = ''recording'' then 2
      else if s = ''completed'' \<or> s = ''failed'' then 3
      else 0)"

definition meetingRank :: "string \<Rightarrow> nat" where
  "meetingRank s =
     (if s = ''scheduled'' then 0
      else if s = ''in_progress'' then 1
      else if s = ''completed'' \<or> s = ''failed'' then 2
      else 0)"

text \<open>Sample rows and provider answers for the concrete instances below.\<close>

definition sampleBot :: "string \<Rightarrow> bot" where
  "sampleBot status =
     \<lparr>b_id = 1, b_userId = 7, b_calendarEventId = 42, b_recallBotId = ''rb-1'',
      b_status = status\<rparr>"

definition sampleMeeting :: "string \<Rightarrow> string option \<Rightarrow> meeting" where
  "sampleMeeting status transcript =
     \<lparr>m_id = 1, m_userId = 7, m_calendarEventId = 42, m_recallBotId = Some 1,
      m_title = ''Weekly sync'', m_startTime = 1717254000000, m_endTime = None,
      m_platform = Some ''zoom'', m_transcript = transcript, m_attendees = None,
      m_status = status\<rparr>"

definition sampleWorld :: "string \<Rightarrow> string \<Rightarrow> string option \<Rightarrow> world" where
  "sampleWorld botStatus meetingStatus transcript =
     \<lparr>bots = [sampleBot botStatus], meetings = [sampleMeeting meetingStatus transcript],
      nextBotId = 2, nextMeetingId = 2, writes = [], requests = []\<rparr>"

definition snapshotOf :: "string \<Rightarrow> json list \<Rightarrow> string \<Rightarrow> json" where
  "snapshotOf code recordings transcriber =
     JObj [(''status_changes'', JArr [JObj [(''code'', JStr ''ready'')],
                                      JObj [(''code'', JStr code)]]),
           (''recordings'', JArr recordings),
           (''transcription_options'', JObj [(''provider'', JStr transcriber)])]"

definition snapshot :: "string \<Rightarrow> json list \<Rightarrow> json" where
  "snapshot code recordings = snapshotOf code recordings ''deepgram''"

definition sampleRecording :: "string option \<Rightarrow> json" where
  "sampleRecording transcribedAt =
     JObj ([(''id'', JStr ''rec-1''), (''completed_at'', JStr ''2024-06-01T16:00:00.000Z'')]
           @ (case transcribedAt of
                None \<Rightarrow> []
              | Some t \<Rightarrow> [(''transcription_completed_at'', JStr t)]))"

text \<open>
  The scan of the sample runs is the one of a PostgreSQL table that was never vacuumed:
  the new version of an updated row is put behind the rows there are, so a row stands
  at the place of the last write that was made to it.
\<close>

fun writtenBot :: "db_write \<Rightarrow> nat option" where
  "writtenBot (CreateRecallBot i) = Some i"
| "writtenBot (UpdateRecallBot i s) = Some i"
| "writtenBot _ = None"

fun writtenMeeting :: "db_write \<Rightarrow> nat option" where
  "writtenMeeting (CreateMeeting i) = Some i"
| "writtenMeeting (UpdateMeeting i p) = Some i"
| "writtenMeeting _ = None"

definition lastWrite :: "(db_write \<Rightarrow> nat option) \<Rightarrow> world \<Rightarrow> nat \<Rightarrow> nat" where
  "lastWrite row w i = length (dropWhile (\<lambda>x. row x \<noteq> Some i) (rev (writes w)))"

text \<open>16:00:00 UTC on 1 June 2024 is 1717257600000 ms; the other sample times are
  minutes after it.\<close>

definition sampleRuntime :: runtime where
  "sampleRuntime =
     \<lparr>dateMs = (\<lambda>v. if v = Some (JStr ''2024-06-01T16:00:00.000Z'')
                     then Some 1717257600000 else None),
      objLast = (\<lambda>fs. None),
      botScan = lastWrite writtenBot,
      meetingScan = lastWrite writtenMeeting\<rparr>"

definition minutesAfter :: "int \<Rightarrow> int" where
  "minutesAfter n = 1717257600000 + n * 60000"

definition transcriptProvider :: "json \<Rightarrow> json \<Rightarrow> provider" where
  "transcriptProvider snap body =
     (\<lambda>n ep. case ep of
                GetBot i \<Rightarrow> Inr snap
              | BotTranscript i \<Rightarrow> Inr body
              | _ \<Rightarrow> Inl RequestFailed)"

text \<open>
  The transcript bodies of the specification (section 4.3, step 5), written from its
  words: a string body; an object with the text under \<^verbatim>\<open>transcript\<close>, \<^verbatim>\<open>text\<close> or
  \<^verbatim>\<open>content\<close>; an array of segments; and an object that has a string or an array of
  segments under \<^verbatim>\<open>data\<close>. A segment carries its text under \<^verbatim>\<open>text\<close>, \<^verbatim>\<open>content\<close>
  or \<^verbatim>\<open>transcript\<close>, and the text of an array of segments is the texts of the segments
  joined by a space.
\<close>

datatype segment = TextSegment string | ContentSegment string | TranscriptSegment string



datatype body =
    StringBody string
  | TranscriptField string
  | TextField string
  | ContentField string
  | SegmentArray "segment list"
  | DataString string
  | DataSegments "segment list"




text \<open>
  A snapshot from which \<^verbatim>\<open>getTranscript\<close> has nothing to fetch: the recordings are
  missing, not an array or empty, or the first recording has no
  \<^verbatim>\<open>transcription_completed_at\<close>.
\<close>

definition noCompletedTranscription :: "json \<Rightarrow> bool" where
  "noCompletedTranscription botStatus =
     (propOf botStatus ''recordings'' = None
      \<or> \<not> isArray (propOf botStatus ''recordings'')
      \<or> elems (propOf botStatus ''recordings'') = []
      \<or> \<not> truthyo (propOf (hd (elems (propOf botStatus ''recordings'')))
                      ''transcription_completed_at''))"

definition answering :: "json \<Rightarrow> provider" where
  "answering v = (\<lambda>n ep. Inr v)"

definition failing :: provider where
  "failing = (\<lambda>n ep. Inl RequestFailed)"

section \<open>Relations and invariants\<close>

text \<open>
  What the storage updates do to a table, and the statuses \<^verbatim>\<open>updateBotStatus\<close> can write.
\<close>

definition setBotStatus :: "nat \<Rightarrow> string \<Rightarrow> bot list \<Rightarrow> bot list" where
  "setBotStatus i s bs = map (\<lambda>b. if b_id b = i then b\<lparr>b_status := s\<rparr> else b) bs"

definition setMeetingStatus :: "nat \<Rightarrow> string \<Rightarrow> meeting list \<Rightarrow> meeting list" where
  "setMeetingStatus i s ms = map (\<lambda>m. if m_id m = i then m\<lparr>m_status := s\<rparr> else m) ms"

definition storeTranscript :: "nat \<Rightarrow> string \<Rightarrow> meeting list \<Rightarrow> meeting list" where
  "storeTranscript i t ms =
     map (\<lambda>m. if m_id m = i then m\<lparr>m_status := ''completed'', m_transcript := Some t\<rparr> else m) ms"

definition mappedStatus :: "string \<Rightarrow> bool" where
  "mappedStatus s = (s \<in> set [''scheduled'', ''joining'', ''recording'', ''completed'', ''failed''])"

text \<open>
  What a sweep or a transcript fetch may do to the tables: no row comes or goes, a bot
  row changes in its status only, a meeting row in its status and transcript only, a new
  meeting status is one the propagation writes, and a transcript is written only over a
  missing or empty one. \<open>transcriptWrites\<close> lists the meetings that the writes of a
  log give a transcript to.
\<close>

definition emptyTranscript :: "meeting \<Rightarrow> bool" where
  "emptyTranscript m = (m_transcript m = None \<or> m_transcript m = Some [])"

definition botStep :: "bot \<Rightarrow> bot \<Rightarrow> bool" where
  "botStep b b' = (b' = b\<lparr>b_status := b_status b'\<rparr>)"

definition meetingStep :: "meeting \<Rightarrow> meeting \<Rightarrow> bool" where
  "meetingStep m m' =
     (m' = m\<lparr>m_status := m_status m', m_transcript := m_transcript m'\<rparr>
      \<and> (m_status m' = m_status m
         \<or> m_status m' \<in> set [''in_progress'', ''completed'', ''failed''])
      \<and> (m_transcript m' = m_transcript m
         \<or> (emptyTranscript m \<and> \<not> emptyTranscript m')))"

definition transcriptWrites :: "db_write list \<Rightarrow> nat list" where
  "transcriptWrites ws =
     concat (map (\<lambda>x. case x of
                        UpdateMeeting i p \<Rightarrow> (if p_transcript p = None then [] else [i])
                      | _ \<Rightarrow> []) ws)"

definition evolves :: "world \<Rightarrow> world \<Rightarrow> bool" where
  "evolves w w' =
     (nextBotId w' = nextBotId w \<and> nextMeetingId w' = nextMeetingId w
      \<and> list_all2 botStep (bots w) (bots w')
      \<and> list_all2 meetingStep (meetings w) (meetings w')
      \<and> (\<exists>new. writes w' = writes w @ new
            \<and> (\<forall>i\<in>set (transcriptWrites new).
                  \<exists>m\<in>set (meetings w). m_id m = i \<and> emptyTranscript m)))"

text \<open>
  Properties of the primary keys and serial counters, and of the transcripts the
  application stores.
\<close>

definition wellFormed :: "world \<Rightarrow> bool" where
  "wellFormed w =
     (distinct (map b_id (bots w)) \<and> distinct (map m_id (meetings w))
      \<and> (\<forall>b\<in>set (bots w). b_id b < nextBotId w)
      \<and> (\<forall>m\<in>set (meetings w). m_id m < nextMeetingId w)
      \<and> (\<forall>m\<in>set (meetings w). m_transcript m \<noteq> Some []))"

text \<open>
  Bots and bot-linked meetings of one calendar event, and the state in which no meeting
  waits as \<open>scheduled\<close> for an event that has no bot.
\<close>

definition botsFor :: "nat \<Rightarrow> world \<Rightarrow> bot list" where
  "botsFor e w = filter (\<lambda>b. b_calendarEventId b = e) (bots w)"

definition linkedMeetingsFor :: "nat \<Rightarrow> world \<Rightarrow> meeting list" where
  "linkedMeetingsFor e w =
     filter (\<lambda>m. m_calendarEventId m = e \<and> m_recallBotId m \<noteq> None) (meetings w)"

definition perEvent :: "world \<Rightarrow> bool" where
  "perEvent w =
     (\<forall>e. length (botsFor e w) \<le> 1 \<and> length (linkedMeetingsFor e w) \<le> length (botsFor e w))"

definition noOrphan :: "world \<Rightarrow> bool" where
  "noOrphan w =
     (\<forall>m\<in>set (meetings w). m_status m = ''scheduled'' \<longrightarrow>
        getRecallBotByCalendarEventId (m_calendarEventId m) w \<noteq> None)"

text \<open>
  The rows the toggle handler inserts, and the two ways \<^verbatim>\<open>createBot\<close> throws: the event
  has no meeting link, or the provider call or the insert of its id fails.
\<close>

definition placeholder :: string where
  "placeholder = ''Failed to create recording bot''"

definition meetingRow :: "nat \<Rightarrow> event \<Rightarrow> world \<Rightarrow> meeting" where
  "meetingRow userId ev w = fst (createMeeting userId ev ''scheduled'' w)"

definition botRow :: "nat \<Rightarrow> event \<Rightarrow> string \<Rightarrow> world \<Rightarrow> bot" where
  "botRow userId ev recallBotId w =
     \<lparr>b_id = nextBotId w, b_userId = userId, b_calendarEventId = e_id ev,
      b_recallBotId = recallBotId, b_status = ''scheduled''\<rparr>"

definition createBotFails :: "event \<Rightarrow> error + string \<Rightarrow> bool" where
  "createBotFails ev resp =
     (e_meetingLink ev = None \<or> e_meetingLink ev = Some [] \<or> isl resp)"

text \<open>
  The statuses the sweep polls and the terminal ones. A state is coherent when each event
  has at most one bot and every meeting of the event of a polled bot is still
  \<open>scheduled\<close> or \<open>in_progress\<close>.
\<close>

definition activeStatus :: "string \<Rightarrow> bool" where
  "activeStatus s = (s \<in> set [''scheduled'', ''joined'', ''joining'', ''recording''])"

definition terminalStatus :: "string \<Rightarrow> bool" where
  "terminalStatus s = (s = ''completed'' \<or> s = ''failed'')"

definition openStatus :: "string \<Rightarrow> bool" where
  "openStatus s = (s = ''scheduled'' \<or> s = ''in_progress'')"

definition meetingsFor :: "nat \<Rightarrow> world \<Rightarrow> meeting list" where
  "meetingsFor e w = filter (\<lambda>m. m_calendarEventId m = e) (meetings w)"

definition openMeetings :: "nat \<Rightarrow> world \<Rightarrow> bool" where
  "openMeetings e w = list_all (\<lambda>m. openStatus (m_status m)) (meetingsFor e w)"

definition coherent :: "world \<Rightarrow> bool" where
  "coherent w =
     (wellFormed w \<and> distinct (map b_calendarEventId (bots w))
      \<and> (\<forall>b\<in>set (bots w). activeStatus (b_status b) \<longrightarrow> openMeetings (b_calendarEventId b) w))"

definition rankStep :: "meeting \<Rightarrow> meeting \<Rightarrow> bool" where
  "rankStep m m' = (m_id m' = m_id m \<and> meetingRank (m_status m) \<le> meetingRank (m_status m'))"

text \<open>
  The code of the latest status change of a snapshot, if it has one, and a run of
  \<^verbatim>\<open>updateBotStatus\<close> over a sequence of snapshots, each on the row as stored then.
\<close>

definition latestCode :: "json \<Rightarrow> json option" where
  "latestCode snap =
     (case propOf snap ''status_changes'' of
        Some (JArr xs) \<Rightarrow> (if xs = [] then None else propOf (last xs) ''code'')
      | _ \<Rightarrow> None)"

fun pollAll :: "json list \<Rightarrow> nat \<Rightarrow> world \<Rightarrow> world" where
  "pollAll [] i w = w"
| "pollAll (snap # snaps) i w =
     (case getRecallBot i w of
        None \<Rightarrow> w
      | Some b \<Rightarrow> pollAll snaps i (snd (updateBotStatus (answering snap) b w)))"

text \<open>
  Sample runs: recording is enabled for one event, with a provider that fails first, or
  that accepts at once; sweeps then observe a status code, or fetch a transcript.
\<close>

definition sampleEvent :: event where
  "sampleEvent =
     \<lparr>e_id = 42, e_title = ''Weekly sync'', e_startTime = 1717254000000, e_endTime = None,
      e_platform = Some ''zoom'', e_attendees = None,
      e_meetingLink = Some ''https://zoom.us/j/1''\<rparr>"

definition enable :: "error + string \<Rightarrow> world \<Rightarrow> world" where
  "enable resp w = toggleRecording sampleEvent True 7 None 1717250000000 resp w"

definition afterFailure :: world where
  "afterFailure = enable (Inl RequestFailed) init"

definition afterRetry :: world where
  "afterRetry = enable (Inr ''rb-1'') afterFailure"

definition afterEnable :: world where
  "afterEnable = enable (Inr ''rb-1'') init"

definition fixedClock :: "int \<Rightarrow> nat \<Rightarrow> int" where
  "fixedClock t n = t"

definition observing :: "string \<Rightarrow> world \<Rightarrow> world" where
  "observing code w = sweep sampleRuntime (answering (snapshot code [])) (fixedClock 0) w"

definition helloProvider :: provider where
  "helloProvider =
     transcriptProvider (snapshot ''done'' [sampleRecording (Some ''2024-06-01T16:00:00.000Z'')])
       (JArr [JObj [(''text'', JStr ''Hello'')], JObj [(''text'', JStr ''world'')]])"

definition otherProvider :: provider where
  "otherProvider =
     transcriptProvider (snapshot ''done'' [sampleRecording (Some ''2024-06-01T16:00:00.000Z'')])
       (JObj [(''transcript'', JStr ''Something else'')])"

definition afterFetch :: world where
  "afterFetch = sweep sampleRuntime helloProvider (fixedClock (minutesAfter 10)) afterEnable"

definition changingProvider :: provider where
  "changingProvider =
     (\<lambda>n ep. case ep of
                GetBot i \<Rightarrow>
                  (if n = 0 then Inr (snapshot ''done'' [sampleRecording None])
                   else Inr (snapshot ''done''
                               [sampleRecording (Some ''2024-06-01T16:00:00.000Z'')]))
              | BotTranscript i \<Rightarrow> Inr (JObj [(''transcript'', JStr ''Hello world'')])
              | _ \<Rightarrow> Inl RequestFailed)"

section \<open>Shared lemmas\<close>

lemma get_Some: "get (Some v) k = (if v = JNull then Inl TypeError else Inr (propOf v k))"
  by (cases v) simp_all

lemma mapStatus_table: "mapStatus code cur = tableStatus code cur"
proof (cases code)
  case None
  then show ?thesis by (simp add: mapStatus_def tableStatus_def)
next
  case (Some v)
  then show ?thesis by (cases v) (simp_all add: mapStatus_def tableStatus_def)
qed

lemma same_id_same_row:
  "distinct (map b_id bs) \<Longrightarrow> r \<in> set bs \<Longrightarrow> b \<in> set bs \<Longrightarrow> b_id b = b_id r \<Longrightarrow> b = r"
  by (auto simp: distinct_map inj_on_def)

lemma map_fixed_rows:
  "(\<forall>b\<in>set bs. P b \<longrightarrow> g b = b) \<Longrightarrow> map (\<lambda>b. if P b then g b else b) bs = bs"
  by (induction bs) auto

lemma find_id_map:
  "distinct (map b_id bs) \<Longrightarrow> r \<in> set bs \<Longrightarrow>
   find (\<lambda>b. b_id b = b_id r) (map (\<lambda>b. if b_id b = b_id r then b\<lparr>b_status := s\<rparr> else b) bs)
     = Some (r\<lparr>b_status := s\<rparr>)"
  by (induction bs) (auto simp: image_iff)

lemma map_id_same:
  assumes "distinct (map b_id bs)" and "r \<in> set bs"
  shows "map (\<lambda>b. if b_id b = b_id r then b\<lparr>b_status := b_status r\<rparr> else b) bs = bs"
proof (rule map_fixed_rows, intro ballI impI)
  fix b assume "b \<in> set bs" and "b_id b = b_id r"
  then have "b = r" using assms by (rule_tac same_id_same_row)
  then show "b\<lparr>b_status := b_status r\<rparr> = b" by simp
qed

text \<open>What \<^verbatim>\<open>updateBotStatus\<close> comes to once the snapshot carries a non-empty array.\<close>

lemma updateBotStatus_latest:
  assumes "prov (length (requests w)) (GetBot (b_recallBotId recallBot)) = Inr botStatus"
    and "propOf botStatus ''status_changes'' = Some (JArr (earlier @ [latest]))"
  shows "updateBotStatus prov recallBot w =
     (let w1 = w\<lparr>requests := requests w @ [GetBot (b_recallBotId recallBot)]\<rparr>;
          status = tableStatus (propOf latest ''code'') (b_status recallBot)
      in if status \<noteq> b_status recallBot
         then updateRecallBot (b_id recallBot) status w1
         else (Some recallBot, w1))"
proof -
  from assms(2) have nn: "botStatus \<noteq> JNull" by auto
  show ?thesis
  proof (cases "latest = JNull")
    case True
    then show ?thesis
      using assms nn
      by (simp add: updateBotStatus_def getBotStatus_def request_def get_Some tableStatus_def)
  next
    case False
    then show ?thesis
      using assms nn
      by (simp add: updateBotStatus_def getBotStatus_def request_def get_Some
          mapStatus_table Let_def)
  qed
qed

text \<open>Requests and the transcript probe touch nothing but the request log.\<close>

lemma request_frame:
  "request prov ep w = (r, w') \<Longrightarrow>
   meetings w' = meetings w \<and> writes w' = writes w \<and> bots w' = bots w
   \<and> nextBotId w' = nextBotId w \<and> nextMeetingId w' = nextMeetingId w"
  by (auto simp: request_def)

lemma tryEndpoints_frame:
  "tryEndpoints prov eps w = (r, w') \<Longrightarrow>
   meetings w' = meetings w \<and> writes w' = writes w \<and> bots w' = bots w
   \<and> nextBotId w' = nextBotId w \<and> nextMeetingId w' = nextMeetingId w"
proof (induction eps arbitrary: w)
  case Nil
  then show ?case by simp
next
  case (Cons ep eps)
  obtain x w1 where rq: "request prov ep w = (x, w1)" by (cases "request prov ep w")
  note f1 = request_frame[OF rq]
  show ?case
  proof (cases x)
    case (Inl e)
    with Cons.prems rq have "tryEndpoints prov eps w1 = (r, w')" by simp
    from Cons.IH[OF this] f1 show ?thesis by simp
  next
    case (Inr response)
    show ?thesis
    proof (cases "\<exists>v. extractTranscript response = Inr (Some v)")
      case True
      with Cons.prems rq Inr have "w' = w1" by auto
      with f1 show ?thesis by simp
    next
      case False
      with Cons.prems rq Inr have "tryEndpoints prov eps w1 = (r, w')"
        by (auto split: sum.splits option.splits)
      from Cons.IH[OF this] f1 show ?thesis by simp
    qed
  qed
qed

lemma getTranscript_frame:
  assumes "getTranscript prov botId w = (r, w')"
  shows "meetings w' = meetings w \<and> writes w' = writes w \<and> bots w' = bots w
   \<and> nextBotId w' = nextBotId w \<and> nextMeetingId w' = nextMeetingId w"
proof -
  define w1 where "w1 = w\<lparr>requests := requests w @ [GetBot botId]\<rparr>"
  have "w' = w1 \<or> (\<exists>eps. tryEndpoints prov eps w1 = (r, w'))"
    using assms
    by (auto simp: getTranscript_def getBotStatus_def request_def w1_def Let_def
        simp del: tryEndpoints.simps split: sum.splits if_splits)
  then show ?thesis
  proof
    assume "w' = w1" then show ?thesis by (simp add: w1_def)
  next
    assume "\<exists>eps. tryEndpoints prov eps w1 = (r, w')"
    then obtain eps where "tryEndpoints prov eps w1 = (r, w')" by blast
    from tryEndpoints_frame[OF this] show ?thesis by (simp add: w1_def)
  qed
qed

text \<open>The two outcomes of the snapshot check in \<^verbatim>\<open>getTranscript\<close>.\<close>

lemma getTranscript_nothing:
  assumes "prov (length (requests w)) (GetBot botId) = Inr snap"
    and "noCompletedTranscription snap"
  shows "getTranscript prov botId w = (None, w\<lparr>requests := requests w @ [GetBot botId]\<rparr>)"
proof (cases "snap = JNull")
  case True
  then show ?thesis using assms(1)
    by (simp add: getTranscript_def getBotStatus_def request_def)
next
  case False
  then show ?thesis using assms
    by (auto simp: getTranscript_def getBotStatus_def request_def get_Some Let_def
        noCompletedTranscription_def)
qed











subsection \<open>One round of the first loop\<close>

lemma tableStatus_range: "tableStatus c cur = cur \<or> mappedStatus (tableStatus c cur)"
  by (auto simp: tableStatus_def mappedStatus_def split: option.splits json.splits)

lemma updateBotStatus_cases:
  "updateBotStatus prov b w = (Some b, w\<lparr>requests := requests w @ [GetBot (b_recallBotId b)]\<rparr>)
   \<or> (\<exists>s. s \<noteq> b_status b \<and> mappedStatus s \<and>
         updateBotStatus prov b w =
           updateRecallBot (b_id b) s (w\<lparr>requests := requests w @ [GetBot (b_recallBotId b)]\<rparr>))"
proof -
  have "\<And>c. mapStatus c (b_status b) = b_status b \<or> mappedStatus (mapStatus c (b_status b))"
    using tableStatus_range by (simp add: mapStatus_table)
  then show ?thesis
    by (auto simp: updateBotStatus_def getBotStatus_def request_def Let_def
        split: sum.splits)
qed

lemma find_in_set: "find P xs = Some x \<Longrightarrow> x \<in> set xs \<and> P x"
  by (induction xs) (auto split: if_splits)

text \<open>Whatever the scan, the meeting that the lookup answers is a row of the event.\<close>

lemma lookup_found:
  assumes "getMeetingByCalendarEventId rt e w = Some m"
  shows "m \<in> set (meetings w) \<and> m_calendarEventId m = e"
proof -
  have "m \<in> set (selectMeetings rt (\<lambda>m. m_calendarEventId m = e) w)"
    using assms by (auto simp: getMeetingByCalendarEventId_def split: list.splits)
  then show ?thesis by (simp add: selectMeetings_def)
qed

lemma lookup_None:
  "getMeetingByCalendarEventId rt e w = None \<longleftrightarrow> meetingsFor e w = []"
proof -
  have "getMeetingByCalendarEventId rt e w = None
      \<longleftrightarrow> set (selectMeetings rt (\<lambda>m. m_calendarEventId m = e) w) = {}"
    by (simp add: getMeetingByCalendarEventId_def split: list.splits)
  also have "\<dots> \<longleftrightarrow> set (meetingsFor e w) = {}"
    by (simp add: selectMeetings_def meetingsFor_def)
  finally show ?thesis by simp
qed

lemma select_bots:
  "set (selectRecallBots rt P w) = {b \<in> set (bots w). P b}"
  "distinct (bots w) \<Longrightarrow> distinct (selectRecallBots rt P w)"
  by (simp_all add: selectRecallBots_def)

lemma same_mid_same_row:
  "distinct (map m_id ms) \<Longrightarrow> r \<in> set ms \<Longrightarrow> m \<in> set ms \<Longrightarrow> m_id m = m_id r \<Longrightarrow> m = r"
  by (auto simp: distinct_map inj_on_def)

lemma setMeetingStatus_same:
  assumes "distinct (map m_id ms)" and "r \<in> set ms"
  shows "setMeetingStatus (m_id r) (m_status r) ms = ms"
  unfolding setMeetingStatus_def
proof (rule map_fixed_rows, intro ballI impI)
  fix m assume "m \<in> set ms" and "m_id m = m_id r"
  then have "m = r" using assms by (rule_tac same_mid_same_row)
  then show "m\<lparr>m_status := m_status r\<rparr> = m" by simp
qed

lemma applyPatch_status: "applyPatch (noPatch\<lparr>p_status := Some s\<rparr>) m = m\<lparr>m_status := s\<rparr>"
  by (simp add: applyPatch_def noPatch_def)

lemma sweepBot_tables:
  assumes "b \<in> set (bots w)" and "distinct (map b_id (bots w))"
    and "distinct (map m_id (meetings w))"
  shows "\<exists>s. (s = b_status b \<or> mappedStatus s)
      \<and> bots (sweepBot rt prov b w) = setBotStatus (b_id b) s (bots w)
      \<and> (meetings (sweepBot rt prov b w) = meetings w
         \<or> (\<exists>m\<in>set (meetings w). s \<noteq> b_status b
               \<and> m_calendarEventId m = b_calendarEventId b
               \<and> meetings (sweepBot rt prov b w)
                   = setMeetingStatus (m_id m) (propagate s (m_status m)) (meetings w)))
      \<and> nextBotId (sweepBot rt prov b w) = nextBotId w
      \<and> nextMeetingId (sweepBot rt prov b w) = nextMeetingId w
      \<and> (\<exists>new. writes (sweepBot rt prov b w) = writes w @ new
            \<and> (\<forall>i p. UpdateMeeting i p \<in> set new \<longrightarrow> p_transcript p = None))"
proof -
  define w1 where "w1 = w\<lparr>requests := requests w @ [GetBot (b_recallBotId b)]\<rparr>"
  consider (same) "updateBotStatus prov b w = (Some b, w1)"
    | (changed) s where "s \<noteq> b_status b" "mappedStatus s"
        "updateBotStatus prov b w = updateRecallBot (b_id b) s w1"
    using updateBotStatus_cases[of prov b w] unfolding w1_def by blast
  then show ?thesis
  proof cases
    case same
    then have sw: "sweepBot rt prov b w = w1" by (simp add: sweepBot_def)
    have "setBotStatus (b_id b) (b_status b) (bots w) = bots w"
      unfolding setBotStatus_def by (rule map_id_same[OF assms(2,1)])
    then show ?thesis
      unfolding sw by (intro exI[of _ "b_status b"]) (simp add: w1_def)
  next
    case (changed s)
    define w2 where "w2 = w1\<lparr>bots := setBotStatus (b_id b) s (bots w),
                              writes := writes w @ [UpdateRecallBot (b_id b) s]\<rparr>"
    have upd: "updateBotStatus prov b w = (Some (b\<lparr>b_status := s\<rparr>), w2)"
      using changed(3) find_id_map[OF assms(2,1), of s]
      by (simp add: updateRecallBot_def Let_def w1_def w2_def setBotStatus_def)
    have m2: "meetings w2 = meetings w" by (simp add: w2_def w1_def)
    show ?thesis
    proof (cases "getMeetingByCalendarEventId rt (b_calendarEventId b) w2")
      case None
      then have sw: "sweepBot rt prov b w = w2"
        using upd changed(1) by (simp add: sweepBot_def)
      show ?thesis unfolding sw using changed(1,2)
        by (intro exI[of _ s]) (simp add: w2_def w1_def)
    next
      case (Some m)
      from lookup_found[OF Some] have min: "m \<in> set (meetings w)"
        and mev: "m_calendarEventId m = b_calendarEventId b"
        using m2 by simp_all
      show ?thesis
      proof (cases "propagate s (m_status m) = m_status m")
        case True
        then have sw: "sweepBot rt prov b w = w2"
          using upd changed(1) Some by (simp add: sweepBot_def Let_def)
        show ?thesis unfolding sw using changed(1,2)
          by (intro exI[of _ s]) (simp add: w2_def w1_def)
      next
        case False
        then have sw: "sweepBot rt prov b w =
            updateMeeting (m_id m) (noPatch\<lparr>p_status := Some (propagate s (m_status m))\<rparr>) w2"
          using upd changed(1) Some by (simp add: sweepBot_def Let_def)
        have ms: "meetings (sweepBot rt prov b w)
            = setMeetingStatus (m_id m) (propagate s (m_status m)) (meetings w)"
          unfolding sw
          by (simp add: updateMeeting_def w2_def w1_def setMeetingStatus_def applyPatch_def
              noPatch_def)
        have moved: "\<exists>m\<in>set (meetings w). s \<noteq> b_status b
               \<and> m_calendarEventId m = b_calendarEventId b
               \<and> meetings (sweepBot rt prov b w)
                   = setMeetingStatus (m_id m) (propagate s (m_status m)) (meetings w)"
          using min mev ms changed(1) by blast
        have rest: "bots (sweepBot rt prov b w) = setBotStatus (b_id b) s (bots w)"
          "nextBotId (sweepBot rt prov b w) = nextBotId w"
          "nextMeetingId (sweepBot rt prov b w) = nextMeetingId w"
          "writes (sweepBot rt prov b w) = writes w @ [UpdateRecallBot (b_id b) s,
              UpdateMeeting (m_id m) (noPatch\<lparr>p_status := Some (propagate s (m_status m))\<rparr>)]"
          unfolding sw by (simp_all add: updateMeeting_def w2_def w1_def)
        have wr: "\<exists>new. writes (sweepBot rt prov b w) = writes w @ new
            \<and> (\<forall>i p. UpdateMeeting i p \<in> set new \<longrightarrow> p_transcript p = None)"
          unfolding rest(4) by (rule exI[of _ "[UpdateRecallBot (b_id b) s,
              UpdateMeeting (m_id m) (noPatch\<lparr>p_status := Some (propagate s (m_status m))\<rparr>)]"])
            (simp add: noPatch_def)
        show ?thesis
          using changed(2) rest(1,2,3) moved wr by (intro exI[of _ s]) blast
      qed
    qed
  qed
qed

subsection \<open>One call of the transcript fetch\<close>

lemma processMeeting_tables:
  "bots (processMeeting rt prov now c w) = bots w
   \<and> nextBotId (processMeeting rt prov now c w) = nextBotId w
   \<and> nextMeetingId (processMeeting rt prov now c w) = nextMeetingId w
   \<and> ((meetings (processMeeting rt prov now c w) = meetings w
        \<and> writes (processMeeting rt prov now c w) = writes w)
      \<or> (\<exists>m t. b_status c = ''completed''
            \<and> getMeetingByCalendarEventId rt (b_calendarEventId c) w = Some m
            \<and> (m_transcript m = None \<or> m_transcript m = Some [])
            \<and> t \<noteq> []
            \<and> meetings (processMeeting rt prov now c w) = storeTranscript (m_id m) t (meetings w)
            \<and> writes (processMeeting rt prov now c w) =
                writes w @ [UpdateMeeting (m_id m)
                   \<lparr>p_status = Some ''completed'', p_transcript = Some t,
                    p_recallBotId = None\<rparr>]))"
proof (cases "b_status c = ''completed''")
  case False
  then show ?thesis by (simp add: processMeeting_def)
next
  case completed: True
  show ?thesis
  proof (cases "getMeetingByCalendarEventId rt (b_calendarEventId c) w")
    case None
    then show ?thesis using completed by (simp add: processMeeting_def)
  next
    case (Some m)
    show ?thesis
    proof (cases "m_transcript m = None \<or> m_transcript m = Some []")
      case False
      then show ?thesis using completed Some by (simp add: processMeeting_def)
    next
      case empty: True
      define w1 where "w1 = w\<lparr>requests := requests w @ [GetBot (b_recallBotId c)]\<rparr>"
      obtain r w2 where gt: "getTranscript prov (b_recallBotId c) w1 = (r, w2)"
        by (cases "getTranscript prov (b_recallBotId c) w1")
      note fr = getTranscript_frame[OF gt]
      have "processMeeting rt prov now c w = w1 \<or> processMeeting rt prov now c w = w2
          \<or> (\<exists>t. t \<noteq> [] \<and> processMeeting rt prov now c w =
                updateMeeting (m_id m)
                  \<lparr>p_status = Some ''completed'', p_transcript = Some t,
                   p_recallBotId = None\<rparr> w2)"
        using completed Some empty gt
        by (auto simp: processMeeting_def getBotStatus_def request_def w1_def
            split: sum.splits bool.splits option.splits json.splits)
      then consider (a) "processMeeting rt prov now c w = w1"
        | (b) "processMeeting rt prov now c w = w2"
        | (c) t where "t \<noteq> []" "processMeeting rt prov now c w =
                updateMeeting (m_id m)
                  \<lparr>p_status = Some ''completed'', p_transcript = Some t,
                   p_recallBotId = None\<rparr> w2"
        by blast
      then show ?thesis
      proof cases
        case a
        then show ?thesis by (simp add: w1_def)
      next
        case b
        then show ?thesis using fr by (simp add: w1_def)
      next
        case (c t)
        have "meetings (processMeeting rt prov now c w) = storeTranscript (m_id m) t (meetings w)"
          unfolding c(2) using fr
          by (simp add: updateMeeting_def storeTranscript_def applyPatch_def w1_def)
        moreover have "writes (processMeeting rt prov now c w) =
                writes w @ [UpdateMeeting (m_id m)
                   \<lparr>p_status = Some ''completed'', p_transcript = Some t,
                    p_recallBotId = None\<rparr>]"
          unfolding c(2) using fr by (simp add: updateMeeting_def w1_def)
        moreover have "bots (processMeeting rt prov now c w) = bots w"
          "nextBotId (processMeeting rt prov now c w) = nextBotId w"
          "nextMeetingId (processMeeting rt prov now c w) = nextMeetingId w"
          unfolding c(2) using fr by (simp_all add: updateMeeting_def w1_def)
        ultimately show ?thesis using completed Some empty c(1) by blast
      qed
    qed
  qed
qed

subsection \<open>Steps that keep the rows\<close>

lemma botStep_refl: "botStep b b"
  by (simp add: botStep_def)

lemma meetingStep_refl: "meetingStep m m"
  by (simp add: meetingStep_def)

lemma botStep_fields:
  assumes "botStep b b'"
  shows "b_id b' = b_id b" and "b_calendarEventId b' = b_calendarEventId b"
    and "b_userId b' = b_userId b" and "b_recallBotId b' = b_recallBotId b"
proof -
  from assms have e: "b' = b\<lparr>b_status := b_status b'\<rparr>" by (simp add: botStep_def)
  show "b_id b' = b_id b" using arg_cong[OF e, of b_id] by simp
  show "b_calendarEventId b' = b_calendarEventId b"
    using arg_cong[OF e, of b_calendarEventId] by simp
  show "b_userId b' = b_userId b" using arg_cong[OF e, of b_userId] by simp
  show "b_recallBotId b' = b_recallBotId b" using arg_cong[OF e, of b_recallBotId] by simp
qed

lemma botStep_iff:
  "botStep b b' \<longleftrightarrow> b_id b' = b_id b \<and> b_calendarEventId b' = b_calendarEventId b
     \<and> b_userId b' = b_userId b \<and> b_recallBotId b' = b_recallBotId b"
  by (cases b, cases b') (auto simp: botStep_def)

lemma meetingStep_same:
  "meetingStep m m' \<Longrightarrow>
   m' = m\<lparr>m_status := m_status m', m_transcript := m_transcript m'\<rparr>"
  by (simp add: meetingStep_def)

lemma meetingStep_fields:
  assumes "meetingStep m m'"
  shows "m_id m' = m_id m" and "m_calendarEventId m' = m_calendarEventId m"
    and "m_recallBotId m' = m_recallBotId m"
proof -
  note e = meetingStep_same[OF assms]
  show "m_id m' = m_id m" using arg_cong[OF e, of m_id] by simp
  show "m_calendarEventId m' = m_calendarEventId m"
    using arg_cong[OF e, of m_calendarEventId] by simp
  show "m_recallBotId m' = m_recallBotId m" using arg_cong[OF e, of m_recallBotId] by simp
qed

lemma botStep_trans: "botStep a b \<Longrightarrow> botStep b c \<Longrightarrow> botStep a c"
  by (simp add: botStep_iff)

lemma meetingStep_trans:
  assumes "meetingStep a b" and "meetingStep b c"
  shows "meetingStep a c"
proof -
  have ab: "b = a\<lparr>m_status := m_status b, m_transcript := m_transcript b\<rparr>"
    and bc: "c = b\<lparr>m_status := m_status c, m_transcript := m_transcript c\<rparr>"
    using assms by (simp_all add: meetingStep_same)
  have "c = (a\<lparr>m_status := m_status b, m_transcript := m_transcript b\<rparr>)
              \<lparr>m_status := m_status c, m_transcript := m_transcript c\<rparr>"
    using bc ab by metis
  then have 1: "c = a\<lparr>m_status := m_status c, m_transcript := m_transcript c\<rparr>" by simp
  have 2: "m_status c = m_status a
         \<or> m_status c \<in> set [''in_progress'', ''completed'', ''failed'']"
    using assms unfolding meetingStep_def by auto
  have 3: "m_transcript c = m_transcript a \<or> (emptyTranscript a \<and> \<not> emptyTranscript c)"
    using assms unfolding meetingStep_def emptyTranscript_def by auto
  show ?thesis unfolding meetingStep_def using 1 2 3 by blast
qed

lemma meetingStep_empty: "meetingStep m m' \<Longrightarrow> emptyTranscript m' \<Longrightarrow> emptyTranscript m"
  unfolding meetingStep_def emptyTranscript_def by auto

lemma evolves_refl: "evolves w w"
  unfolding evolves_def
  by (auto simp: list_all2_same botStep_refl meetingStep_refl transcriptWrites_def
      intro!: exI[of _ "[]"])

lemma transcriptWrites_append:
  "transcriptWrites (xs @ ys) = transcriptWrites xs @ transcriptWrites ys"
  by (simp add: transcriptWrites_def)

lemma list_all2_trans':
  "(\<And>a b c. P a b \<Longrightarrow> P b c \<Longrightarrow> P a c) \<Longrightarrow> list_all2 P xs ys \<Longrightarrow> list_all2 P ys zs
   \<Longrightarrow> list_all2 P xs zs"
  by (rule list_all2_trans) auto

lemma evolves_empty_back:
  assumes "list_all2 meetingStep ms ms'" and "m' \<in> set ms'" and "emptyTranscript m'"
  shows "\<exists>m\<in>set ms. m_id m = m_id m' \<and> emptyTranscript m"
proof -
  from assms(2) obtain i where i: "i < length ms'" "ms' ! i = m'"
    by (auto simp: in_set_conv_nth)
  with assms(1) have st: "meetingStep (ms ! i) m'" and len: "i < length ms"
    by (auto simp: list_all2_conv_all_nth)
  from st assms(3) have "emptyTranscript (ms ! i)" by (rule meetingStep_empty)
  moreover have "m_id (ms ! i) = m_id m'" using meetingStep_fields(1)[OF st] by simp
  ultimately show ?thesis using len by (auto intro!: bexI[of _ "ms ! i"])
qed

lemma evolves_trans:
  assumes "evolves a b" and "evolves b c"
  shows "evolves a c"
proof -
  from assms obtain n1 n2 where
    n1: "writes b = writes a @ n1"
      "\<forall>i\<in>set (transcriptWrites n1). \<exists>m\<in>set (meetings a). m_id m = i \<and> emptyTranscript m"
    and n2: "writes c = writes b @ n2"
      "\<forall>i\<in>set (transcriptWrites n2). \<exists>m\<in>set (meetings b). m_id m = i \<and> emptyTranscript m"
    unfolding evolves_def by blast
  have ms: "list_all2 meetingStep (meetings a) (meetings b)"
    using assms(1) by (simp add: evolves_def)
  have older: "\<forall>i\<in>set (transcriptWrites n2).
      \<exists>m\<in>set (meetings a). m_id m = i \<and> emptyTranscript m"
  proof
    fix i assume "i \<in> set (transcriptWrites n2)"
    with n2(2) obtain m' where m': "m' \<in> set (meetings b)" "m_id m' = i" "emptyTranscript m'"
      by blast
    from evolves_empty_back[OF ms m'(1) m'(3)] m'(2)
    show "\<exists>m\<in>set (meetings a). m_id m = i \<and> emptyTranscript m" by auto
  qed
  have w: "writes c = writes a @ (n1 @ n2)" using n1(1) n2(1) by simp
  have "\<forall>i\<in>set (transcriptWrites (n1 @ n2)).
      \<exists>m\<in>set (meetings a). m_id m = i \<and> emptyTranscript m"
    using n1(2) older by (auto simp: transcriptWrites_append)
  with w have wr: "\<exists>new. writes c = writes a @ new
            \<and> (\<forall>i\<in>set (transcriptWrites new).
                  \<exists>m\<in>set (meetings a). m_id m = i \<and> emptyTranscript m)"
    by blast
  have "list_all2 botStep (bots a) (bots c)"
    using assms by (auto simp: evolves_def intro: list_all2_trans'[OF botStep_trans])
  moreover have "list_all2 meetingStep (meetings a) (meetings c)"
    using assms by (auto simp: evolves_def intro: list_all2_trans'[OF meetingStep_trans])
  ultimately show ?thesis using assms wr unfolding evolves_def by simp
qed

lemma botStep_setStatus: "list_all2 botStep bs (setBotStatus i s bs)"
  unfolding setBotStatus_def
  by (induction bs) (auto simp: botStep_def)

lemma mappedStatus_propagate:
  "mappedStatus s \<Longrightarrow>
   propagate s old = old \<or> propagate s old \<in> set [''in_progress'', ''completed'', ''failed'']"
  by (auto simp: propagate_def)

lemma meetingStep_setStatus:
  assumes "distinct (map m_id ms)" and "m \<in> set ms"
    and "st = m_status m \<or> st \<in> set [''in_progress'', ''completed'', ''failed'']"
  shows "list_all2 meetingStep ms (setMeetingStatus (m_id m) st ms)"
proof -
  have "\<forall>x\<in>set ms. meetingStep x (if m_id x = m_id m then x\<lparr>m_status := st\<rparr> else x)"
  proof
    fix x assume x: "x \<in> set ms"
    show "meetingStep x (if m_id x = m_id m then x\<lparr>m_status := st\<rparr> else x)"
    proof (cases "m_id x = m_id m")
      case True
      then have "x = m" using same_mid_same_row[OF assms(1,2) x] by simp
      then show ?thesis using True assms(3) by (auto simp: meetingStep_def)
    next
      case False
      then show ?thesis by (simp add: meetingStep_refl)
    qed
  qed
  then show ?thesis
    unfolding setMeetingStatus_def by (simp add: list_all2_map2 list_all2_same)
qed

lemma meetingStep_storeTranscript:
  assumes "distinct (map m_id ms)" and "m \<in> set ms" and "emptyTranscript m" and "t \<noteq> []"
  shows "list_all2 meetingStep ms (storeTranscript (m_id m) t ms)"
proof -
  have "\<forall>x\<in>set ms. meetingStep x
      (if m_id x = m_id m then x\<lparr>m_status := ''completed'', m_transcript := Some t\<rparr> else x)"
  proof
    fix x assume x: "x \<in> set ms"
    show "meetingStep x
      (if m_id x = m_id m then x\<lparr>m_status := ''completed'', m_transcript := Some t\<rparr> else x)"
    proof (cases "m_id x = m_id m")
      case True
      then have "x = m" using same_mid_same_row[OF assms(1,2) x] by simp
      then show ?thesis using True assms(3,4) by (auto simp: meetingStep_def emptyTranscript_def)
    next
      case False
      then show ?thesis by (simp add: meetingStep_refl)
    qed
  qed
  then show ?thesis
    unfolding storeTranscript_def by (simp add: list_all2_map2 list_all2_same)
qed

lemma sweepBot_evolves:
  assumes "b \<in> set (bots w)" and "distinct (map b_id (bots w))"
    and "distinct (map m_id (meetings w))"
  shows "evolves w (sweepBot rt prov b w)"
proof -
  from sweepBot_tables[OF assms, where rt = rt and prov = prov] obtain s new where
    s: "s = b_status b \<or> mappedStatus s"
    and bs: "bots (sweepBot rt prov b w) = setBotStatus (b_id b) s (bots w)"
    and ms: "meetings (sweepBot rt prov b w) = meetings w
         \<or> (\<exists>m\<in>set (meetings w). s \<noteq> b_status b
               \<and> m_calendarEventId m = b_calendarEventId b
               \<and> meetings (sweepBot rt prov b w)
                   = setMeetingStatus (m_id m) (propagate s (m_status m)) (meetings w))"
    and nx: "nextBotId (sweepBot rt prov b w) = nextBotId w"
      "nextMeetingId (sweepBot rt prov b w) = nextMeetingId w"
    and wr: "writes (sweepBot rt prov b w) = writes w @ new"
      "\<forall>i p. UpdateMeeting i p \<in> set new \<longrightarrow> p_transcript p = None"
    by blast
  have tw: "transcriptWrites new = []"
    using wr(2) by (auto simp: transcriptWrites_def split: db_write.splits)
  have m2: "list_all2 meetingStep (meetings w) (meetings (sweepBot rt prov b w))"
    using ms
  proof
    assume "meetings (sweepBot rt prov b w) = meetings w"
    then show ?thesis by (simp add: list_all2_same meetingStep_refl)
  next
    assume "\<exists>m\<in>set (meetings w). s \<noteq> b_status b
               \<and> m_calendarEventId m = b_calendarEventId b
               \<and> meetings (sweepBot rt prov b w)
                   = setMeetingStatus (m_id m) (propagate s (m_status m)) (meetings w)"
    then obtain m where min: "m \<in> set (meetings w)" and ne: "s \<noteq> b_status b"
      and mv: "meetings (sweepBot rt prov b w)
                   = setMeetingStatus (m_id m) (propagate s (m_status m)) (meetings w)"
      by blast
    from ne s have mapped: "mappedStatus s" by simp
    show ?thesis
      unfolding mv
      using meetingStep_setStatus[OF assms(3) min, of "propagate s (m_status m)"]
        mappedStatus_propagate[OF mapped, of "m_status m"]
      by simp
  qed
  show ?thesis
    unfolding evolves_def using nx bs m2 wr(1) tw botStep_setStatus by auto
qed

lemma processMeeting_evolves:
  assumes "distinct (map m_id (meetings w))"
  shows "evolves w (processMeeting rt prov now c w)"
proof -
  let ?w' = "processMeeting rt prov now c w"
  note t = processMeeting_tables[of rt prov now c w]
  have b: "list_all2 botStep (bots w) (bots ?w')"
    using t by (simp add: list_all2_same botStep_refl)
  from t consider (idle) "meetings ?w' = meetings w" "writes ?w' = writes w"
    | (store) m t where "getMeetingByCalendarEventId rt (b_calendarEventId c) w = Some m"
        "emptyTranscript m" "t \<noteq> []" "meetings ?w' = storeTranscript (m_id m) t (meetings w)"
        "writes ?w' = writes w @ [UpdateMeeting (m_id m)
                   \<lparr>p_status = Some ''completed'', p_transcript = Some t,
                    p_recallBotId = None\<rparr>]"
    unfolding emptyTranscript_def by blast
  then show ?thesis
  proof cases
    case idle
    then show ?thesis
      unfolding evolves_def using t b
      by (auto simp: list_all2_same meetingStep_refl transcriptWrites_def)
  next
    case (store m t')
    then have min: "m \<in> set (meetings w)"
      using lookup_found by blast
    have "list_all2 meetingStep (meetings w) (meetings ?w')"
      unfolding store(4) by (rule meetingStep_storeTranscript[OF assms min store(2,3)])
    moreover have "\<forall>i\<in>set (transcriptWrites [UpdateMeeting (m_id m)
                   \<lparr>p_status = Some ''completed'', p_transcript = Some t',
                    p_recallBotId = None\<rparr>]).
        \<exists>x\<in>set (meetings w). m_id x = i \<and> emptyTranscript x"
      using min store(2) by (auto simp: transcriptWrites_def)
    ultimately show ?thesis
      unfolding evolves_def using t b store(5) by blast
  qed
qed

lemma evolves_ids:
  assumes "evolves w w'"
  shows "map b_id (bots w') = map b_id (bots w)"
    and "map b_calendarEventId (bots w') = map b_calendarEventId (bots w)"
    and "map m_id (meetings w') = map m_id (meetings w)"
    and "map m_calendarEventId (meetings w') = map m_calendarEventId (meetings w)"
    and "map m_recallBotId (meetings w') = map m_recallBotId (meetings w)"
proof -
  have b: "list_all2 botStep (bots w) (bots w')"
    and m: "list_all2 meetingStep (meetings w) (meetings w')"
    using assms by (simp_all add: evolves_def)
  show "map b_id (bots w') = map b_id (bots w)"
    using b by (induction rule: list_all2_induct) (auto simp: botStep_fields)
  show "map b_calendarEventId (bots w') = map b_calendarEventId (bots w)"
    using b by (induction rule: list_all2_induct) (auto simp: botStep_fields)
  show "map m_id (meetings w') = map m_id (meetings w)"
    using m by (induction rule: list_all2_induct) (auto simp: meetingStep_fields)
  show "map m_calendarEventId (meetings w') = map m_calendarEventId (meetings w)"
    using m by (induction rule: list_all2_induct) (auto simp: meetingStep_fields)
  show "map m_recallBotId (meetings w') = map m_recallBotId (meetings w)"
    using m by (induction rule: list_all2_induct) (auto simp: meetingStep_fields)
qed

lemma setBotStatus_keeps:
  "r \<in> set bs \<Longrightarrow> b_id r \<noteq> i \<Longrightarrow> r \<in> set (setBotStatus i s bs)"
  by (induction bs) (auto simp: setBotStatus_def)

lemma phase1_evolves:
  assumes "distinct (map b_id (bots w))" and "distinct (map m_id (meetings w))"
    and "set bs \<subseteq> set (bots w)" and "distinct bs"
  shows "evolves w (fold (sweepBot rt prov) bs w)"
  using assms
proof (induction bs arbitrary: w)
  case Nil
  then show ?case by (simp add: evolves_refl)
next
  case (Cons b bs)
  let ?w1 = "sweepBot rt prov b w"
  have bin: "b \<in> set (bots w)" using Cons.prems(3) by simp
  have e1: "evolves w ?w1" by (rule sweepBot_evolves[OF bin Cons.prems(1,2)])
  have d1: "distinct (map b_id (bots ?w1))" "distinct (map m_id (meetings ?w1))"
    using evolves_ids[OF e1] Cons.prems(1,2) by simp_all
  from sweepBot_tables[OF bin Cons.prems(1,2), where rt = rt and prov = prov] obtain s where
    bs1: "bots ?w1 = setBotStatus (b_id b) s (bots w)" by blast
  have "set bs \<subseteq> set (bots ?w1)"
  proof
    fix r assume r: "r \<in> set bs"
    then have rin: "r \<in> set (bots w)" and "r \<noteq> b" using Cons.prems(3,4) by auto
    then have "b_id r \<noteq> b_id b"
      using same_id_same_row[OF Cons.prems(1) bin rin] by auto
    then show "r \<in> set (bots ?w1)" unfolding bs1 using rin by (rule_tac setBotStatus_keeps)
  qed
  moreover have "distinct bs" using Cons.prems(4) by simp
  ultimately have "evolves ?w1 (fold (sweepBot rt prov) bs ?w1)"
    using Cons.IH[OF d1] by blast
  with e1 show ?case by (simp add: evolves_trans)
qed

lemma phase2_evolves:
  assumes "distinct (map m_id (meetings w))"
  shows "evolves w (fold (sweepCompleted rt prov clock) cs w)"
  using assms
proof (induction cs arbitrary: w)
  case Nil
  then show ?case by (simp add: evolves_refl)
next
  case (Cons c cs)
  let ?w1 = "sweepCompleted rt prov clock c w"
  have e1: "evolves w ?w1"
    unfolding sweepCompleted_def by (rule processMeeting_evolves[OF Cons.prems])
  have "distinct (map m_id (meetings ?w1))" using evolves_ids(3)[OF e1] Cons.prems by simp
  from Cons.IH[OF this] e1 show ?case by (simp add: evolves_trans)
qed

lemma sweep_evolves:
  assumes "distinct (map b_id (bots w))" and "distinct (map m_id (meetings w))"
  shows "evolves w (sweep rt prov clock w)"
proof -
  let ?w1 = "fold (sweepBot rt prov) (activeBots rt w) w"
  have "distinct (bots w)" using assms(1) by (rule distinct_map[THEN iffD1, THEN conjunct1])
  then have e1: "evolves w ?w1"
    using assms by (intro phase1_evolves) (auto simp: activeBots_def select_bots)
  have "distinct (map m_id (meetings ?w1))" using evolves_ids(3)[OF e1] assms(2) by simp
  then have "evolves ?w1 (fold (sweepCompleted rt prov clock) (completedBots rt ?w1) ?w1)"
    by (rule phase2_evolves)
  with e1 show ?thesis unfolding sweep_def Let_def by (rule evolves_trans)
qed

subsection \<open>The toggle handler\<close>

lemma patch_fresh:
  "\<forall>m\<in>set ms. m_id m < n \<Longrightarrow> map (\<lambda>m. if m_id m = n then f m else m) ms = ms"
  by (induction ms) auto

lemma setupRecording_tables:
  assumes "\<forall>m\<in>set (meetings w). m_id m < nextMeetingId w"
    and "getRecallBotByCalendarEventId (e_id ev) w = None"
    and "now < e_startTime ev - joinMinutes bj * 60000"
  shows "(createBotFails ev resp \<longrightarrow>
            bots (setupRecording ev uid bj now resp w) = bots w
          \<and> meetings (setupRecording ev uid bj now resp w) =
              meetings w @ [(meetingRow uid ev w)\<lparr>m_status := ''failed'',
                                                   m_transcript := Some placeholder\<rparr>]
          \<and> nextBotId (setupRecording ev uid bj now resp w) = nextBotId w
          \<and> nextMeetingId (setupRecording ev uid bj now resp w) = Suc (nextMeetingId w))
       \<and> (\<not> createBotFails ev resp \<longrightarrow>
            bots (setupRecording ev uid bj now resp w) = bots w @ [botRow uid ev (projr resp) w]
          \<and> meetings (setupRecording ev uid bj now resp w) =
              meetings w @ [(meetingRow uid ev w)\<lparr>m_recallBotId := Some (nextBotId w)\<rparr>]
          \<and> nextBotId (setupRecording ev uid bj now resp w) = Suc (nextBotId w)
          \<and> nextMeetingId (setupRecording ev uid bj now resp w) = Suc (nextMeetingId w))"
proof (intro conjI impI)
  assume f: "createBotFails ev resp"
  then have cb: "\<And>w1. \<exists>e w2. createBot ev uid bj resp w1 = (Inl e, w2)
      \<and> bots w2 = bots w1 \<and> meetings w2 = meetings w1 \<and> nextBotId w2 = nextBotId w1
      \<and> nextMeetingId w2 = nextMeetingId w1"
    by (cases resp) (auto simp: createBot_def createBotFails_def Let_def)
  define w1 where "w1 = snd (createMeeting uid ev ''scheduled'' w)"
  obtain e w2 where c: "createBot ev uid bj resp w1 = (Inl e, w2)"
    "bots w2 = bots w1" "meetings w2 = meetings w1" "nextBotId w2 = nextBotId w1"
    "nextMeetingId w2 = nextMeetingId w1"
    using cb[of w1] by blast
  have run: "setupRecording ev uid bj now resp w =
      updateMeeting (nextMeetingId w)
        (noPatch\<lparr>p_status := Some ''failed'', p_transcript := Some placeholder\<rparr>) w2"
    using assms(2,3) c(1)
    by (simp add: setupRecording_def Let_def createMeeting_def w1_def placeholder_def)
  have m1: "meetings w1 = meetings w @ [meetingRow uid ev w]"
    and o1: "bots w1 = bots w" "nextBotId w1 = nextBotId w"
      "nextMeetingId w1 = Suc (nextMeetingId w)"
    and idr: "m_id (meetingRow uid ev w) = nextMeetingId w"
    by (simp_all add: w1_def createMeeting_def meetingRow_def Let_def)
  show "bots (setupRecording ev uid bj now resp w) = bots w"
    unfolding run using c o1 by (simp add: updateMeeting_def)
  show "nextBotId (setupRecording ev uid bj now resp w) = nextBotId w"
    unfolding run using c o1 by (simp add: updateMeeting_def)
  show "nextMeetingId (setupRecording ev uid bj now resp w) = Suc (nextMeetingId w)"
    unfolding run using c o1 by (simp add: updateMeeting_def)
  show "meetings (setupRecording ev uid bj now resp w) =
      meetings w @ [(meetingRow uid ev w)\<lparr>m_status := ''failed'',
                                           m_transcript := Some placeholder\<rparr>]"
    unfolding run using c m1 idr patch_fresh[OF assms(1)]
    by (simp add: updateMeeting_def applyPatch_def noPatch_def)
next
  assume "\<not> createBotFails ev resp"
  then obtain rid link where resp: "resp = Inr rid"
    and link: "e_meetingLink ev = Some link" "link \<noteq> []"
    by (cases resp; cases "e_meetingLink ev") (auto simp: createBotFails_def)
  define w1 where "w1 = snd (createMeeting uid ev ''scheduled'' w)"
  have m1: "meetings w1 = meetings w @ [meetingRow uid ev w]"
    and o1: "bots w1 = bots w" "nextBotId w1 = nextBotId w"
      "nextMeetingId w1 = Suc (nextMeetingId w)"
    and idr: "m_id (meetingRow uid ev w) = nextMeetingId w"
    by (simp_all add: w1_def createMeeting_def meetingRow_def Let_def)
  obtain w2 where c: "createBot ev uid bj resp w1 = (Inr (botRow uid ev rid w), w2)"
    "bots w2 = bots w @ [botRow uid ev rid w]" "meetings w2 = meetings w1"
    "nextBotId w2 = Suc (nextBotId w)" "nextMeetingId w2 = nextMeetingId w1"
    using resp link o1
    by (simp add: createBot_def createRecallBot_def Let_def botRow_def)
  have run: "setupRecording ev uid bj now resp w =
      updateMeeting (nextMeetingId w) (noPatch\<lparr>p_recallBotId := Some (nextBotId w)\<rparr>) w2"
    using assms(2,3) c(1)
    by (simp add: setupRecording_def Let_def createMeeting_def w1_def botRow_def)
  show "bots (setupRecording ev uid bj now resp w) = bots w @ [botRow uid ev (projr resp) w]"
    unfolding run using c resp by (simp add: updateMeeting_def)
  show "nextBotId (setupRecording ev uid bj now resp w) = Suc (nextBotId w)"
    unfolding run using c o1 by (simp add: updateMeeting_def)
  show "nextMeetingId (setupRecording ev uid bj now resp w) = Suc (nextMeetingId w)"
    unfolding run using c o1 by (simp add: updateMeeting_def)
  show "meetings (setupRecording ev uid bj now resp w) =
      meetings w @ [(meetingRow uid ev w)\<lparr>m_recallBotId := Some (nextBotId w)\<rparr>]"
    unfolding run using c m1 idr patch_fresh[OF assms(1)]
    by (simp add: updateMeeting_def applyPatch_def noPatch_def)
qed

lemma toggle_idle:
  "\<not> (en \<and> e_id ev \<noteq> 0 \<and> getRecallBotByCalendarEventId (e_id ev) w = None
       \<and> now < e_startTime ev - joinMinutes bj * 60000)
   \<Longrightarrow> toggleRecording ev en uid bj now resp w = w"
  by (auto simp: toggleRecording_def setupRecording_def Let_def split: option.splits)

lemma toggle_runs:
  "en \<and> e_id ev \<noteq> 0 \<Longrightarrow>
   toggleRecording ev en uid bj now resp w = setupRecording ev uid bj now resp w"
  by (simp add: toggleRecording_def)

lemma meetingRow_fields:
  "m_id (meetingRow uid ev w) = nextMeetingId w"
  "m_calendarEventId (meetingRow uid ev w) = e_id ev"
  "m_transcript (meetingRow uid ev w) = None"
  "m_recallBotId (meetingRow uid ev w) = None"
  "m_status (meetingRow uid ev w) = ''scheduled''"
  by (simp_all add: meetingRow_def createMeeting_def Let_def)

lemma botRow_fields:
  "b_id (botRow uid ev rid w) = nextBotId w"
  "b_calendarEventId (botRow uid ev rid w) = e_id ev"
  "b_status (botRow uid ev rid w) = ''scheduled''"
  by (simp_all add: botRow_def)

lemma find_None_filter: "find P xs = None \<longleftrightarrow> filter P xs = []"
  by (induction xs) auto

lemma toggle_cases:
  assumes "\<forall>m\<in>set (meetings w). m_id m < nextMeetingId w"
  obtains (idle) "toggleRecording ev en uid bj now resp w = w"
  | (failed) "getRecallBotByCalendarEventId (e_id ev) w = None"
      "bots (toggleRecording ev en uid bj now resp w) = bots w"
      "meetings (toggleRecording ev en uid bj now resp w) =
         meetings w @ [(meetingRow uid ev w)\<lparr>m_status := ''failed'',
                                              m_transcript := Some placeholder\<rparr>]"
      "nextBotId (toggleRecording ev en uid bj now resp w) = nextBotId w"
      "nextMeetingId (toggleRecording ev en uid bj now resp w) = Suc (nextMeetingId w)"
  | (created) rid where "getRecallBotByCalendarEventId (e_id ev) w = None"
      "bots (toggleRecording ev en uid bj now resp w) = bots w @ [botRow uid ev rid w]"
      "meetings (toggleRecording ev en uid bj now resp w) =
         meetings w @ [(meetingRow uid ev w)\<lparr>m_recallBotId := Some (nextBotId w)\<rparr>]"
      "nextBotId (toggleRecording ev en uid bj now resp w) = Suc (nextBotId w)"
      "nextMeetingId (toggleRecording ev en uid bj now resp w) = Suc (nextMeetingId w)"
proof (cases "en \<and> e_id ev \<noteq> 0 \<and> getRecallBotByCalendarEventId (e_id ev) w = None
       \<and> now < e_startTime ev - joinMinutes bj * 60000")
  case False
  then show ?thesis using idle toggle_idle by blast
next
  case True
  then have run: "toggleRecording ev en uid bj now resp w = setupRecording ev uid bj now resp w"
    by (simp add: toggle_runs)
  from True have nb: "getRecallBotByCalendarEventId (e_id ev) w = None"
    and fut: "now < e_startTime ev - joinMinutes bj * 60000" by simp_all
  note t = setupRecording_tables[OF assms nb fut, where uid = uid and resp = resp]
  show ?thesis
  proof (cases "createBotFails ev resp")
    case True
    with t show ?thesis using failed nb unfolding run by blast
  next
    case False
    with t show ?thesis using created[of "projr resp"] nb unfolding run by blast
  qed
qed

subsection \<open>Invariants of the reachable states\<close>

lemma wellFormed_toggle:
  assumes "wellFormed w"
  shows "wellFormed (toggleRecording ev en uid bj now resp w)"
proof -
  have fresh: "\<forall>m\<in>set (meetings w). m_id m < nextMeetingId w"
    using assms by (simp add: wellFormed_def)
  show ?thesis
  proof (rule toggle_cases[OF fresh, where ev = ev and en = en and uid = uid and bj = bj
      and now = now and resp = resp], goal_cases)
    case 1
    then show ?case using assms by simp
  next
    case 2
    then show ?case using assms
      by (auto simp: wellFormed_def meetingRow_fields placeholder_def less_Suc_eq)
  next
    case (3 rid)
    then show ?case using assms
      by (auto simp: wellFormed_def meetingRow_fields botRow_fields less_Suc_eq)
  qed
qed

lemma wellFormed_evolves:
  assumes "wellFormed w" and "evolves w w'"
  shows "wellFormed w'"
proof -
  note ids = evolves_ids[OF assms(2)]
  have nx: "nextBotId w' = nextBotId w" "nextMeetingId w' = nextMeetingId w"
    using assms(2) by (simp_all add: evolves_def)
  have ms: "list_all2 meetingStep (meetings w) (meetings w')"
    using assms(2) by (simp add: evolves_def)
  have d: "distinct (map b_id (bots w'))" "distinct (map m_id (meetings w'))"
    using ids assms(1) by (simp_all add: wellFormed_def)
  have b: "\<forall>b\<in>set (bots w'). b_id b < nextBotId w'"
  proof
    fix b assume "b \<in> set (bots w')"
    then have "b_id b \<in> set (map b_id (bots w'))" by simp
    then have "b_id b \<in> set (map b_id (bots w))" using ids(1) by simp
    then obtain b0 where "b0 \<in> set (bots w)" "b_id b0 = b_id b" by auto
    then show "b_id b < nextBotId w'" using assms(1) nx by (auto simp: wellFormed_def)
  qed
  have m: "\<forall>m\<in>set (meetings w'). m_id m < nextMeetingId w'"
  proof
    fix m assume "m \<in> set (meetings w')"
    then have "m_id m \<in> set (map m_id (meetings w'))" by simp
    then have "m_id m \<in> set (map m_id (meetings w))" using ids(3) by simp
    then obtain m0 where "m0 \<in> set (meetings w)" "m_id m0 = m_id m" by auto
    then show "m_id m < nextMeetingId w'" using assms(1) nx by (auto simp: wellFormed_def)
  qed
  have t: "\<forall>m'\<in>set (meetings w'). m_transcript m' \<noteq> Some []"
  proof
    fix m' assume "m' \<in> set (meetings w')"
    then obtain i where i: "i < length (meetings w')" "meetings w' ! i = m'"
      by (auto simp: in_set_conv_nth)
    with ms have st: "meetingStep (meetings w ! i) m'" and len: "i < length (meetings w)"
      by (auto simp: list_all2_conv_all_nth)
    have "m_transcript (meetings w ! i) \<noteq> Some []"
      using assms(1) len by (auto simp: wellFormed_def)
    then show "m_transcript m' \<noteq> Some []"
      using st by (auto simp: meetingStep_def emptyTranscript_def)
  qed
  show ?thesis unfolding wellFormed_def using d b m t by blast
qed

lemma reachable_wellFormed: "reachable rt w \<Longrightarrow> wellFormed w"
proof (induction rule: reachable.induct)
  case r_init
  then show ?case by (simp add: wellFormed_def init_def)
next
  case (r_toggle w ev isRecordingEnabled userId botJoinMinutesBefore now resp)
  then show ?case by (simp add: wellFormed_toggle)
next
  case (r_sweep w prov clock)
  then have d: "distinct (map b_id (bots w))" "distinct (map m_id (meetings w))"
    by (simp_all add: wellFormed_def)
  show ?case by (rule wellFormed_evolves[OF r_sweep.IH sweep_evolves[OF d]])
next
  case (r_fetch w b prov now)
  then have d: "distinct (map m_id (meetings w))" by (simp add: wellFormed_def)
  show ?case by (rule wellFormed_evolves[OF r_fetch.IH processMeeting_evolves[OF d]])
qed

lemma find_by_id:
  "distinct (map m_id ms) \<Longrightarrow> m \<in> set ms \<Longrightarrow> find (\<lambda>x. m_id x = m_id m) ms = Some m"
  by (induction ms) (auto simp: image_iff)

lemma evolves_keeps_transcript:
  assumes "evolves w w'" and "distinct (map m_id (meetings w))"
    and "m \<in> set (meetings w)" and "m_transcript m = Some t" and "t \<noteq> []"
  shows "map_option m_transcript (getMeeting (m_id m) w') = Some (Some t)
       \<and> m_id m \<notin> set (transcriptWrites (drop (length (writes w)) (writes w')))"
proof -
  have ms: "list_all2 meetingStep (meetings w) (meetings w')"
    using assms(1) by (simp add: evolves_def)
  from assms(3) obtain i where i: "i < length (meetings w)" "meetings w ! i = m"
    by (auto simp: in_set_conv_nth)
  define m' where "m' = meetings w' ! i"
  have st: "meetingStep m m'" and len: "i < length (meetings w')"
    using ms i by (auto simp: list_all2_conv_all_nth m'_def)
  have ne: "\<not> emptyTranscript m" using assms(4,5) by (simp add: emptyTranscript_def)
  have tr: "m_transcript m' = Some t"
    using st ne assms(4) by (auto simp: meetingStep_def)
  have idm: "m_id m' = m_id m" using meetingStep_fields(1)[OF st] .
  have d': "distinct (map m_id (meetings w'))"
    using evolves_ids(3)[OF assms(1)] assms(2) by simp
  have "m' \<in> set (meetings w')" using len by (simp add: m'_def)
  from find_by_id[OF d' this] have "getMeeting (m_id m) w' = Some m'"
    by (simp add: getMeeting_def idm)
  then have 1: "map_option m_transcript (getMeeting (m_id m) w') = Some (Some t)"
    using tr by simp
  from assms(1) obtain new where new: "writes w' = writes w @ new"
    "\<forall>i\<in>set (transcriptWrites new). \<exists>x\<in>set (meetings w). m_id x = i \<and> emptyTranscript x"
    unfolding evolves_def by blast
  have "m_id m \<notin> set (transcriptWrites new)"
  proof
    assume "m_id m \<in> set (transcriptWrites new)"
    with new(2) obtain x where x: "x \<in> set (meetings w)" "m_id x = m_id m" "emptyTranscript x"
      by blast
    then have "x = m" using same_mid_same_row[OF assms(2,3)] by simp
    with x(3) ne show False by simp
  qed
  then have 2: "m_id m \<notin> set (transcriptWrites (drop (length (writes w)) (writes w')))"
    using new(1) by simp
  from 1 2 show ?thesis by simp
qed

lemma botsFor_length_evolves:
  assumes "evolves w w'"
  shows "length (botsFor e w') = length (botsFor e w)"
proof -
  have "list_all2 botStep (bots w) (bots w')" using assms by (simp add: evolves_def)
  then have "length (filter (\<lambda>b. b_calendarEventId b = e) (bots w'))
      = length (filter (\<lambda>b. b_calendarEventId b = e) (bots w))"
    by (induction rule: list_all2_induct) (auto simp: botStep_fields)
  then show ?thesis by (simp add: botsFor_def)
qed

lemma linked_length_evolves:
  assumes "evolves w w'"
  shows "length (linkedMeetingsFor e w') = length (linkedMeetingsFor e w)"
proof -
  have "list_all2 meetingStep (meetings w) (meetings w')" using assms by (simp add: evolves_def)
  then have "length (filter (\<lambda>m. m_calendarEventId m = e \<and> m_recallBotId m \<noteq> None) (meetings w'))
      = length (filter (\<lambda>m. m_calendarEventId m = e \<and> m_recallBotId m \<noteq> None) (meetings w))"
    by (induction rule: list_all2_induct) (auto simp: meetingStep_fields)
  then show ?thesis by (simp add: linkedMeetingsFor_def)
qed

lemma perEvent_evolves: "perEvent w \<Longrightarrow> evolves w w' \<Longrightarrow> perEvent w'"
  by (simp add: perEvent_def botsFor_length_evolves linked_length_evolves)

lemma no_bot_botsFor:
  "getRecallBotByCalendarEventId e w = None \<longleftrightarrow> botsFor e w = []"
  by (simp add: getRecallBotByCalendarEventId_def botsFor_def find_None_filter)

lemma perEvent_toggle:
  assumes "perEvent w" and "\<forall>m\<in>set (meetings w). m_id m < nextMeetingId w"
  shows "perEvent (toggleRecording ev en uid bj now resp w)"
proof (rule toggle_cases[OF assms(2), where ev = ev and en = en and uid = uid and bj = bj
      and now = now and resp = resp], goal_cases)
  case 1
  then show ?case using assms(1) by simp
next
  case 2
  then show ?case using assms(1)
    by (simp add: perEvent_def botsFor_def linkedMeetingsFor_def meetingRow_fields)
next
  case (3 rid)
  have none: "botsFor (e_id ev) w = []" using 3(1) by (simp add: no_bot_botsFor)
  then have "linkedMeetingsFor (e_id ev) w = []"
    using assms(1) by (auto simp: perEvent_def dest!: spec[of _ "e_id ev"])
  with none 3(2,3) assms(1) show ?case
    by (auto simp: perEvent_def botsFor_def linkedMeetingsFor_def meetingRow_fields
        botRow_fields)
qed

lemma reachable_perEvent: "reachable rt w \<Longrightarrow> perEvent w"
proof (induction rule: reachable.induct)
  case r_init
  then show ?case by (simp add: perEvent_def botsFor_def linkedMeetingsFor_def init_def)
next
  case (r_toggle w ev isRecordingEnabled userId botJoinMinutesBefore now resp)
  have "\<forall>m\<in>set (meetings w). m_id m < nextMeetingId w"
    using reachable_wellFormed[OF r_toggle.hyps] by (simp add: wellFormed_def)
  then show ?case using r_toggle.IH by (simp add: perEvent_toggle)
next
  case (r_sweep w prov clock)
  have d: "distinct (map b_id (bots w))" "distinct (map m_id (meetings w))"
    using reachable_wellFormed[OF r_sweep.hyps] by (simp_all add: wellFormed_def)
  show ?case by (rule perEvent_evolves[OF r_sweep.IH sweep_evolves[OF d]])
next
  case (r_fetch w b prov now)
  have d: "distinct (map m_id (meetings w))"
    using reachable_wellFormed[OF r_fetch.hyps(1)] by (simp add: wellFormed_def)
  show ?case by (rule perEvent_evolves[OF r_fetch.IH processMeeting_evolves[OF d]])
qed

lemma has_bot_iff:
  "getRecallBotByCalendarEventId e w \<noteq> None \<longleftrightarrow> e \<in> set (map b_calendarEventId (bots w))"
  by (auto simp: getRecallBotByCalendarEventId_def find_None_iff)

lemma has_bot_ex:
  "(\<exists>y. getRecallBotByCalendarEventId e w = Some y)
     \<longleftrightarrow> e \<in> set (map b_calendarEventId (bots w))"
  using has_bot_iff[of e w] by auto

lemma noOrphan_evolves:
  assumes "noOrphan w" and "evolves w w'"
  shows "noOrphan w'"
  unfolding noOrphan_def
proof (intro ballI impI)
  fix m' assume m': "m' \<in> set (meetings w')" and sch: "m_status m' = ''scheduled''"
  have ms: "list_all2 meetingStep (meetings w) (meetings w')"
    using assms(2) by (simp add: evolves_def)
  from m' obtain i where i: "i < length (meetings w')" "meetings w' ! i = m'"
    by (auto simp: in_set_conv_nth)
  with ms have st: "meetingStep (meetings w ! i) m'" and len: "i < length (meetings w)"
    by (auto simp: list_all2_conv_all_nth)
  have "m_status (meetings w ! i) = ''scheduled''"
    using st sch by (auto simp: meetingStep_def)
  then have "getRecallBotByCalendarEventId (m_calendarEventId (meetings w ! i)) w \<noteq> None"
    using assms(1) len by (auto simp: noOrphan_def)
  then show "getRecallBotByCalendarEventId (m_calendarEventId m') w' \<noteq> None"
    using meetingStep_fields(2)[OF st] evolves_ids(2)[OF assms(2)]
    by (simp add: has_bot_ex del: set_map)
qed

lemma noOrphan_toggle:
  assumes "noOrphan w" and "\<forall>m\<in>set (meetings w). m_id m < nextMeetingId w"
  shows "noOrphan (toggleRecording ev en uid bj now resp w)"
proof (rule toggle_cases[OF assms(2), where ev = ev and en = en and uid = uid and bj = bj
      and now = now and resp = resp], goal_cases)
  case 1
  then show ?case using assms(1) by simp
next
  case 2
  then show ?case using assms(1)
    by (auto simp: noOrphan_def has_bot_ex meetingRow_fields)
next
  case (3 rid)
  then show ?case using assms(1)
    by (auto simp: noOrphan_def has_bot_ex meetingRow_fields botRow_fields)
qed

lemma reachable_noOrphan: "reachable rt w \<Longrightarrow> noOrphan w"
proof (induction rule: reachable.induct)
  case r_init
  then show ?case by (simp add: noOrphan_def init_def)
next
  case (r_toggle w ev isRecordingEnabled userId botJoinMinutesBefore now resp)
  have "\<forall>m\<in>set (meetings w). m_id m < nextMeetingId w"
    using reachable_wellFormed[OF r_toggle.hyps] by (simp add: wellFormed_def)
  then show ?case using r_toggle.IH by (simp add: noOrphan_toggle)
next
  case (r_sweep w prov clock)
  have d: "distinct (map b_id (bots w))" "distinct (map m_id (meetings w))"
    using reachable_wellFormed[OF r_sweep.hyps] by (simp_all add: wellFormed_def)
  show ?case by (rule noOrphan_evolves[OF r_sweep.IH sweep_evolves[OF d]])
next
  case (r_fetch w b prov now)
  have d: "distinct (map m_id (meetings w))"
    using reachable_wellFormed[OF r_fetch.hyps(1)] by (simp add: wellFormed_def)
  show ?case by (rule noOrphan_evolves[OF r_fetch.IH processMeeting_evolves[OF d]])
qed

subsection \<open>Coherent states\<close>

lemma meetingRank_le2: "meetingRank s \<le> 2"
  by (simp add: meetingRank_def)

lemma rankStep_refl: "rankStep m m"
  by (simp add: rankStep_def)

lemma rankStep_trans: "rankStep a b \<Longrightarrow> rankStep b c \<Longrightarrow> rankStep a c"
  by (auto simp: rankStep_def)

lemma rank_propagate:
  assumes "mappedStatus s" and "openStatus old"
  shows "meetingRank old \<le> meetingRank (propagate s old)"
  using assms by (auto simp: mappedStatus_def propagate_def meetingRank_def openStatus_def)

lemma open_propagate:
  assumes "mappedStatus s" and "activeStatus s" and "openStatus old"
  shows "openStatus (propagate s old)"
  using assms by (auto simp: mappedStatus_def activeStatus_def propagate_def openStatus_def)

lemma same_cal_same_row:
  "distinct (map b_calendarEventId bs) \<Longrightarrow> r \<in> set bs \<Longrightarrow> b \<in> set bs
   \<Longrightarrow> b_calendarEventId b = b_calendarEventId r \<Longrightarrow> b = r"
  by (auto simp: distinct_map inj_on_def)

lemma in_setBotStatus:
  "b' \<in> set (setBotStatus i s bs) \<Longrightarrow>
   \<exists>x\<in>set bs. b' = (if b_id x = i then x\<lparr>b_status := s\<rparr> else x)"
  by (auto simp: setBotStatus_def)

lemma openMeetings_iff:
  "openMeetings e w \<longleftrightarrow>
     (\<forall>m\<in>set (meetings w). m_calendarEventId m = e \<longrightarrow> openStatus (m_status m))"
  by (auto simp: openMeetings_def meetingsFor_def list_all_iff)

lemma openMeetings_same:
  "meetings w' = meetings w \<Longrightarrow> openMeetings e w' = openMeetings e w"
  by (simp add: openMeetings_iff)

lemma openMeetings_setStatus:
  assumes "openMeetings e w"
    and "meetings w' = setMeetingStatus i st (meetings w)"
    and "\<forall>x\<in>set (meetings w). m_id x = i \<longrightarrow> m_calendarEventId x = e \<longrightarrow> openStatus st"
  shows "openMeetings e w'"
  using assms by (auto simp: openMeetings_iff setMeetingStatus_def)

lemma openMeetings_storeTranscript:
  assumes "openMeetings e w"
    and "meetings w' = storeTranscript i t (meetings w)"
    and "\<forall>x\<in>set (meetings w). m_id x = i \<longrightarrow> m_calendarEventId x \<noteq> e"
  shows "openMeetings e w'"
  using assms by (auto simp: openMeetings_iff storeTranscript_def)

lemma rankStep_setStatus:
  assumes "distinct (map m_id ms)" and "m \<in> set ms"
    and "meetingRank (m_status m) \<le> meetingRank st"
  shows "list_all2 rankStep ms (setMeetingStatus (m_id m) st ms)"
proof -
  have "\<forall>x\<in>set ms. rankStep x (if m_id x = m_id m then x\<lparr>m_status := st\<rparr> else x)"
  proof
    fix x assume x: "x \<in> set ms"
    show "rankStep x (if m_id x = m_id m then x\<lparr>m_status := st\<rparr> else x)"
    proof (cases "m_id x = m_id m")
      case True
      then have "x = m" using same_mid_same_row[OF assms(1,2) x] by simp
      then show ?thesis using True assms(3) by (simp add: rankStep_def)
    next
      case False
      then show ?thesis by (simp add: rankStep_refl)
    qed
  qed
  then show ?thesis
    unfolding setMeetingStatus_def by (simp add: list_all2_map2 list_all2_same)
qed

lemma rankStep_storeTranscript: "list_all2 rankStep ms (storeTranscript i t ms)"
  unfolding storeTranscript_def
  by (simp add: list_all2_map2 list_all2_same rankStep_def meetingRank_def)

lemma sweepBot_coherent:
  assumes coh: "coherent w" and a: "a \<in> set (bots w)" and act: "activeStatus (b_status a)"
  shows "coherent (sweepBot rt prov a w)
       \<and> list_all2 rankStep (meetings w) (meetings (sweepBot rt prov a w))"
proof -
  let ?w' = "sweepBot rt prov a w"
  from coh have wf: "wellFormed w" and dcal: "distinct (map b_calendarEventId (bots w))"
    and opn: "\<forall>b\<in>set (bots w). activeStatus (b_status b) \<longrightarrow> openMeetings (b_calendarEventId b) w"
    by (simp_all add: coherent_def)
  from wf have db: "distinct (map b_id (bots w))" and dm: "distinct (map m_id (meetings w))"
    by (simp_all add: wellFormed_def)
  have ev: "evolves w ?w'" by (rule sweepBot_evolves[OF a db dm])
  have wf': "wellFormed ?w'" by (rule wellFormed_evolves[OF wf ev])
  have dcal': "distinct (map b_calendarEventId (bots ?w'))"
    using evolves_ids(2)[OF ev] dcal by simp
  from sweepBot_tables[OF a db dm, where rt = rt and prov = prov] obtain s where
    s: "s = b_status a \<or> mappedStatus s"
    and bs: "bots ?w' = setBotStatus (b_id a) s (bots w)"
    and ms: "meetings ?w' = meetings w
         \<or> (\<exists>m\<in>set (meetings w). s \<noteq> b_status a
               \<and> m_calendarEventId m = b_calendarEventId a
               \<and> meetings ?w' = setMeetingStatus (m_id m) (propagate s (m_status m)) (meetings w))"
    by blast
  have opa: "openMeetings (b_calendarEventId a) w" using opn a act by blast
  from ms consider (same) "meetings ?w' = meetings w"
    | (moved) m where "mappedStatus s" "m \<in> set (meetings w)"
        "m_calendarEventId m = b_calendarEventId a"
        "meetings ?w' = setMeetingStatus (m_id m) (propagate s (m_status m)) (meetings w)"
    using s by blast
  then show ?thesis
  proof cases
    case same
    have "\<forall>b'\<in>set (bots ?w'). activeStatus (b_status b') \<longrightarrow>
        openMeetings (b_calendarEventId b') ?w'"
    proof (intro ballI impI)
      fix b' assume b': "b' \<in> set (bots ?w')" and ab: "activeStatus (b_status b')"
      from in_setBotStatus[OF b'[unfolded bs]] obtain x where
        x: "x \<in> set (bots w)" "b' = (if b_id x = b_id a then x\<lparr>b_status := s\<rparr> else x)"
        by blast
      have "openMeetings (b_calendarEventId b') w"
      proof (cases "b_id x = b_id a")
        case True
        then have "x = a" using same_id_same_row[OF db a x(1)] by simp
        then have "b_calendarEventId b' = b_calendarEventId a" using x(2) True by simp
        then show ?thesis using opa by simp
      next
        case False
        then have "b' = x" using x(2) by simp
        then show ?thesis using opn x(1) ab by simp
      qed
      then show "openMeetings (b_calendarEventId b') ?w'"
        using openMeetings_same[OF same] by simp
    qed
    then have "coherent ?w'" using wf' dcal' by (simp add: coherent_def)
    moreover have "list_all2 rankStep (meetings w) (meetings ?w')"
      using same by (simp add: list_all2_same rankStep_refl)
    ultimately show ?thesis by simp
  next
    case (moved m)
    have old: "openStatus (m_status m)"
      using opa moved(2,3) by (simp add: openMeetings_iff)
    have "\<forall>b'\<in>set (bots ?w'). activeStatus (b_status b') \<longrightarrow>
        openMeetings (b_calendarEventId b') ?w'"
    proof (intro ballI impI)
      fix b' assume b': "b' \<in> set (bots ?w')" and ab: "activeStatus (b_status b')"
      from in_setBotStatus[OF b'[unfolded bs]] obtain x where
        x: "x \<in> set (bots w)" "b' = (if b_id x = b_id a then x\<lparr>b_status := s\<rparr> else x)"
        by blast
      show "openMeetings (b_calendarEventId b') ?w'"
      proof (cases "b_id x = b_id a")
        case True
        then have xa: "x = a" using same_id_same_row[OF db a x(1)] by simp
        then have b'a: "b' = a\<lparr>b_status := s\<rparr>" using x(2) True by simp
        then have "activeStatus s" using ab by simp
        from open_propagate[OF moved(1) this old]
        have "openStatus (propagate s (m_status m))" .
        then have "openMeetings (b_calendarEventId a) ?w'"
          by (intro openMeetings_setStatus[OF opa moved(4)]) simp
        then show ?thesis using b'a by simp
      next
        case False
        then have bx: "b' = x" using x(2) by simp
        have "x \<noteq> a" using False by auto
        then have ne: "b_calendarEventId x \<noteq> b_calendarEventId a"
          using same_cal_same_row[OF dcal a x(1)] by auto
        have ox: "openMeetings (b_calendarEventId x) w" using opn x(1) ab bx by simp
        have "\<forall>y\<in>set (meetings w). m_id y = m_id m \<longrightarrow>
            m_calendarEventId y = b_calendarEventId x \<longrightarrow> openStatus (propagate s (m_status m))"
        proof (intro ballI impI)
          fix y assume y: "y \<in> set (meetings w)" and "m_id y = m_id m"
            and yx: "m_calendarEventId y = b_calendarEventId x"
          then have "y = m" using same_mid_same_row[OF dm moved(2) y] by simp
          with yx ne moved(3) show "openStatus (propagate s (m_status m))" by simp
        qed
        from openMeetings_setStatus[OF ox moved(4) this] show ?thesis using bx by simp
      qed
    qed
    then have "coherent ?w'" using wf' dcal' by (simp add: coherent_def)
    moreover have "list_all2 rankStep (meetings w) (meetings ?w')"
      unfolding moved(4)
      by (rule rankStep_setStatus[OF dm moved(2) rank_propagate[OF moved(1) old]])
    ultimately show ?thesis by simp
  qed
qed

lemma processMeeting_coherent:
  assumes coh: "coherent w" and c: "c \<in> set (bots w)" and st: "b_status c = ''completed''"
  shows "coherent (processMeeting rt prov now c w)
       \<and> list_all2 rankStep (meetings w) (meetings (processMeeting rt prov now c w))"
proof -
  let ?w' = "processMeeting rt prov now c w"
  from coh have wf: "wellFormed w" and dcal: "distinct (map b_calendarEventId (bots w))"
    and opn: "\<forall>b\<in>set (bots w). activeStatus (b_status b) \<longrightarrow> openMeetings (b_calendarEventId b) w"
    by (simp_all add: coherent_def)
  from wf have dm: "distinct (map m_id (meetings w))" by (simp add: wellFormed_def)
  have wf': "wellFormed ?w'"
    by (rule wellFormed_evolves[OF wf processMeeting_evolves[OF dm]])
  note t = processMeeting_tables[of rt prov now c w]
  have bs: "bots ?w' = bots w" using t by simp
  from t consider (same) "meetings ?w' = meetings w"
    | (store) m tx where "getMeetingByCalendarEventId rt (b_calendarEventId c) w = Some m"
        "meetings ?w' = storeTranscript (m_id m) tx (meetings w)"
    by blast
  then show ?thesis
  proof cases
    case same
    have "\<And>e. openMeetings e ?w' = openMeetings e w"
      using openMeetings_same[OF same] by simp
    then have "coherent ?w'" using wf' dcal opn bs by (simp add: coherent_def)
    then show ?thesis using same by (simp add: list_all2_same rankStep_refl)
  next
    case (store m tx)
    note mm = lookup_found[OF store(1)]
    have "\<forall>b'\<in>set (bots ?w'). activeStatus (b_status b') \<longrightarrow>
        openMeetings (b_calendarEventId b') ?w'"
    proof (intro ballI impI)
      fix b' assume b': "b' \<in> set (bots ?w')" and ab: "activeStatus (b_status b')"
      then have bin: "b' \<in> set (bots w)" using bs by simp
      have "b' \<noteq> c" using ab st by (auto simp: activeStatus_def)
      then have ne: "b_calendarEventId b' \<noteq> b_calendarEventId c"
        using same_cal_same_row[OF dcal c bin] by auto
      have ob: "openMeetings (b_calendarEventId b') w" using opn bin ab by simp
      have "\<forall>y\<in>set (meetings w). m_id y = m_id m \<longrightarrow>
          m_calendarEventId y \<noteq> b_calendarEventId b'"
      proof (intro ballI impI)
        fix y assume y: "y \<in> set (meetings w)" and "m_id y = m_id m"
        then have "y = m" using same_mid_same_row[OF dm mm[THEN conjunct1] y] by simp
        with ne mm show "m_calendarEventId y \<noteq> b_calendarEventId b'" by simp
      qed
      from openMeetings_storeTranscript[OF ob store(2) this]
      show "openMeetings (b_calendarEventId b') ?w'" .
    qed
    then have "coherent ?w'" using wf' dcal bs by (simp add: coherent_def)
    then show ?thesis unfolding store(2) by (simp add: rankStep_storeTranscript)
  qed
qed

lemma rankSteps_trans:
  "list_all2 rankStep xs ys \<Longrightarrow> list_all2 rankStep ys zs \<Longrightarrow> list_all2 rankStep xs zs"
  by (rule list_all2_trans'[OF rankStep_trans])

lemma phase1_coherent:
  assumes "coherent w" and "set bs \<subseteq> set (bots w)" and "distinct bs"
    and "\<forall>a\<in>set bs. activeStatus (b_status a)"
  shows "coherent (fold (sweepBot rt prov) bs w)
       \<and> list_all2 rankStep (meetings w) (meetings (fold (sweepBot rt prov) bs w))"
  using assms
proof (induction bs arbitrary: w)
  case Nil
  then show ?case by (simp add: list_all2_same rankStep_refl)
next
  case (Cons a bs)
  let ?w1 = "sweepBot rt prov a w"
  have ain: "a \<in> set (bots w)" and act: "activeStatus (b_status a)"
    using Cons.prems(2,4) by simp_all
  from Cons.prems(1) have db: "distinct (map b_id (bots w))"
    and dm: "distinct (map m_id (meetings w))"
    by (simp_all add: coherent_def wellFormed_def)
  note step = sweepBot_coherent[OF Cons.prems(1) ain act, where rt = rt and prov = prov]
  from sweepBot_tables[OF ain db dm, where rt = rt and prov = prov] obtain s where
    bs1: "bots ?w1 = setBotStatus (b_id a) s (bots w)" by blast
  have sub: "set bs \<subseteq> set (bots ?w1)"
  proof
    fix r assume r: "r \<in> set bs"
    then have rin: "r \<in> set (bots w)" and "r \<noteq> a" using Cons.prems(2,3) by auto
    then have "b_id r \<noteq> b_id a" using same_id_same_row[OF db ain rin] by auto
    then show "r \<in> set (bots ?w1)" unfolding bs1 using rin by (rule_tac setBotStatus_keeps)
  qed
  have "coherent (fold (sweepBot rt prov) bs ?w1)
       \<and> list_all2 rankStep (meetings ?w1) (meetings (fold (sweepBot rt prov) bs ?w1))"
    using Cons.IH[OF step[THEN conjunct1] sub] Cons.prems(3,4) by simp
  with step show ?case by (auto intro: rankSteps_trans)
qed

lemma phase2_coherent:
  assumes "coherent w" and "set cs \<subseteq> set (bots w)"
    and "\<forall>c\<in>set cs. b_status c = ''completed''"
  shows "coherent (fold (sweepCompleted rt prov clock) cs w)
       \<and> list_all2 rankStep (meetings w)
            (meetings (fold (sweepCompleted rt prov clock) cs w))"
  using assms
proof (induction cs arbitrary: w)
  case Nil
  then show ?case by (simp add: list_all2_same rankStep_refl)
next
  case (Cons c cs)
  let ?w1 = "sweepCompleted rt prov clock c w"
  have cin: "c \<in> set (bots w)" and st: "b_status c = ''completed''"
    using Cons.prems(2,3) by simp_all
  have step: "coherent ?w1 \<and> list_all2 rankStep (meetings w) (meetings ?w1)"
    unfolding sweepCompleted_def by (rule processMeeting_coherent[OF Cons.prems(1) cin st])
  have "bots ?w1 = bots w"
    unfolding sweepCompleted_def using processMeeting_tables by blast
  then have sub: "set cs \<subseteq> set (bots ?w1)" using Cons.prems(2) by simp
  have "coherent (fold (sweepCompleted rt prov clock) cs ?w1)
       \<and> list_all2 rankStep (meetings ?w1)
            (meetings (fold (sweepCompleted rt prov clock) cs ?w1))"
    using Cons.IH[OF step[THEN conjunct1] sub] Cons.prems(3) by simp
  with step show ?case by (auto intro: rankSteps_trans)
qed

lemma sweep_coherent:
  assumes "coherent w"
  shows "coherent (sweep rt prov clock w)
       \<and> list_all2 rankStep (meetings w) (meetings (sweep rt prov clock w))"
proof -
  let ?w1 = "fold (sweepBot rt prov) (activeBots rt w) w"
  from assms have "distinct (map b_id (bots w))" by (simp add: coherent_def wellFormed_def)
  then have "distinct (bots w)" by (rule distinct_map[THEN iffD1, THEN conjunct1])
  then have p1: "coherent ?w1 \<and> list_all2 rankStep (meetings w) (meetings ?w1)"
    using assms by (intro phase1_coherent) (auto simp: activeBots_def activeStatus_def select_bots)
  have "coherent (fold (sweepCompleted rt prov clock) (completedBots rt ?w1) ?w1)
       \<and> list_all2 rankStep (meetings ?w1)
            (meetings (fold (sweepCompleted rt prov clock) (completedBots rt ?w1) ?w1))"
    using p1 by (intro phase2_coherent) (auto simp: completedBots_def select_bots)
  with p1 show ?thesis unfolding sweep_def Let_def by (auto intro: rankSteps_trans)
qed

lemma toggle_coherent:
  assumes coh: "coherent w" and fresh: "openMeetings (e_id ev) w"
  shows "coherent (toggleRecording ev en uid bj now resp w)"
proof -
  let ?w' = "toggleRecording ev en uid bj now resp w"
  from coh have wf: "wellFormed w" and dcal: "distinct (map b_calendarEventId (bots w))"
    and opn: "\<forall>b\<in>set (bots w). activeStatus (b_status b) \<longrightarrow> openMeetings (b_calendarEventId b) w"
    by (simp_all add: coherent_def)
  have wf': "wellFormed ?w'" using wf by (rule wellFormed_toggle)
  have ids: "\<forall>m\<in>set (meetings w). m_id m < nextMeetingId w"
    using wf by (simp add: wellFormed_def)
  show ?thesis
  proof (rule toggle_cases[OF ids, where ev = ev and en = en and uid = uid and bj = bj
      and now = now and resp = resp], goal_cases)
    case 1
    then show ?case using coh by simp
  next
    case 2
    have nob: "\<forall>b\<in>set (bots w). b_calendarEventId b \<noteq> e_id ev"
      using 2(1) by (auto simp: getRecallBotByCalendarEventId_def find_None_iff)
    have "\<forall>b\<in>set (bots w). openMeetings (b_calendarEventId b) ?w'
        = openMeetings (b_calendarEventId b) w"
      using nob 2(3) by (auto simp: openMeetings_iff meetingRow_fields)
    then show ?case using wf' dcal opn 2(2) by (simp add: coherent_def)
  next
    case (3 rid)
    have nob: "\<forall>b\<in>set (bots w). b_calendarEventId b \<noteq> e_id ev"
      using 3(1) by (auto simp: getRecallBotByCalendarEventId_def find_None_iff)
    have old: "\<forall>b\<in>set (bots w). openMeetings (b_calendarEventId b) ?w'
        = openMeetings (b_calendarEventId b) w"
      using nob 3(3) by (auto simp: openMeetings_iff meetingRow_fields)
    have new: "openMeetings (e_id ev) ?w'"
      using fresh 3(3) by (auto simp: openMeetings_iff meetingRow_fields openStatus_def)
    have "distinct (map b_calendarEventId (bots ?w'))"
      using dcal nob 3(2) by (auto simp: botRow_fields)
    moreover have "\<forall>b\<in>set (bots ?w'). activeStatus (b_status b) \<longrightarrow>
        openMeetings (b_calendarEventId b) ?w'"
      using opn old new 3(2) by (auto simp: botRow_fields)
    ultimately show ?case using wf' by (simp add: coherent_def)
  qed
qed

subsection \<open>Sequences of observations\<close>

lemma updateBotStatus_unreadable:
  assumes "prov (length (requests w)) (GetBot (b_recallBotId b)) = Inr snap"
    and "\<not> (\<exists>earlier latest. propOf snap ''status_changes'' = Some (JArr (earlier @ [latest])))"
  shows "updateBotStatus prov b w =
           (Some b, w\<lparr>requests := requests w @ [GetBot (b_recallBotId b)]\<rparr>)"
proof -
  have "\<not> truthyo (propOf snap ''status_changes'') \<or> \<not> isArray (propOf snap ''status_changes'')
      \<or> elems (propOf snap ''status_changes'') = []"
  proof (rule ccontr)
    assume "\<not> ?thesis"
    then obtain xs where "propOf snap ''status_changes'' = Some (JArr xs)" "xs \<noteq> []"
      by (cases "propOf snap ''status_changes''" rule: isArray.cases) auto
    then show False using assms(2) by (cases xs rule: rev_cases) auto
  qed
  then show ?thesis using assms(1)
    by (auto simp: updateBotStatus_def getBotStatus_def request_def get_Some split: sum.splits)
qed

lemma latestCode_nonempty:
  "propOf snap ''status_changes'' = Some (JArr (earlier @ [latest]))
   \<Longrightarrow> latestCode snap = propOf latest ''code''"
  by (simp add: latestCode_def)

lemma latestCode_unreadable:
  "\<not> (\<exists>earlier latest. propOf snap ''status_changes'' = Some (JArr (earlier @ [latest])))
   \<Longrightarrow> latestCode snap = None"
  unfolding latestCode_def
  by (auto split: option.splits json.splits) (metis rev_exhaust)

lemma setBotStatus_same:
  "distinct (map b_id bs) \<Longrightarrow> b \<in> set bs \<Longrightarrow> setBotStatus (b_id b) (b_status b) bs = bs"
  unfolding setBotStatus_def by (rule map_id_same)

lemma updateBotStatus_poll:
  assumes "prov (length (requests w)) (GetBot (b_recallBotId b)) = Inr snap"
    and "distinct (map b_id (bots w))" and "b \<in> set (bots w)"
  shows "bots (snd (updateBotStatus prov b w))
           = setBotStatus (b_id b) (tableStatus (latestCode snap) (b_status b)) (bots w)"
proof (cases "\<exists>earlier latest. propOf snap ''status_changes'' = Some (JArr (earlier @ [latest]))")
  case True
  then obtain earlier latest where
    sc: "propOf snap ''status_changes'' = Some (JArr (earlier @ [latest]))" by blast
  define s where "s = tableStatus (propOf latest ''code'') (b_status b)"
  have lc: "tableStatus (latestCode snap) (b_status b) = s"
    using latestCode_nonempty[OF sc] by (simp add: s_def)
  have run: "updateBotStatus prov b w =
      (if s \<noteq> b_status b
       then updateRecallBot (b_id b) s (w\<lparr>requests := requests w @ [GetBot (b_recallBotId b)]\<rparr>)
       else (Some b, w\<lparr>requests := requests w @ [GetBot (b_recallBotId b)]\<rparr>))"
    using updateBotStatus_latest[of prov w b snap earlier latest] assms(1) sc
    by (simp add: Let_def s_def)
  show ?thesis
  proof (cases "s = b_status b")
    case True
    have "bots (snd (updateBotStatus prov b w)) = bots w" using run True by simp
    then show ?thesis unfolding lc True using setBotStatus_same[OF assms(2,3)] by simp
  next
    case False
    then show ?thesis unfolding lc using run
      by (simp add: updateRecallBot_def Let_def setBotStatus_def)
  qed
next
  case False
  have "bots (snd (updateBotStatus prov b w)) = bots w"
    using updateBotStatus_unreadable[where prov = prov and w = w and b = b, OF assms(1) False]
    by simp
  then show ?thesis
    using latestCode_unreadable[OF False] setBotStatus_same[OF assms(2,3)]
    by (simp add: tableStatus_def)
qed

lemma find_bot_by_id:
  "distinct (map b_id bs) \<Longrightarrow> b \<in> set bs \<Longrightarrow> find (\<lambda>x. b_id x = b_id b) bs = Some b"
  by (induction bs) (auto simp: image_iff)

lemma setBotStatus_ids: "map b_id (setBotStatus i s bs) = map b_id bs"
  by (induction bs) (auto simp: setBotStatus_def)

lemma setBotStatus_own:
  "b \<in> set bs \<Longrightarrow> b\<lparr>b_status := s\<rparr> \<in> set (setBotStatus (b_id b) s bs)"
  by (induction bs) (auto simp: setBotStatus_def)

lemma pollAll_status:
  assumes "distinct (map b_id (bots w))" and "b \<in> set (bots w)"
  shows "map_option b_status (getRecallBot (b_id b) (pollAll snaps (b_id b) w))
           = Some (foldl (\<lambda>s snap. tableStatus (latestCode snap) s) (b_status b) snaps)"
  using assms
proof (induction snaps arbitrary: w b)
  case Nil
  then show ?case using find_bot_by_id[OF Nil.prems] by (simp add: getRecallBot_def)
next
  case (Cons snap snaps)
  define s where "s = tableStatus (latestCode snap) (b_status b)"
  define w1 where "w1 = snd (updateBotStatus (answering snap) b w)"
  have look: "getRecallBot (b_id b) w = Some b"
    using find_bot_by_id[OF Cons.prems] by (simp add: getRecallBot_def)
  have b1: "bots w1 = setBotStatus (b_id b) s (bots w)"
    unfolding w1_def s_def
    by (rule updateBotStatus_poll[where prov = "answering snap" and w = w and b = b,
          OF _ Cons.prems]) (simp add: answering_def)
  have d1: "distinct (map b_id (bots w1))" using Cons.prems(1) b1 by (simp add: setBotStatus_ids)
  have in1: "b\<lparr>b_status := s\<rparr> \<in> set (bots w1)"
    unfolding b1 by (rule setBotStatus_own[OF Cons.prems(2)])
  from Cons.IH[OF d1 in1] look show ?case by (simp add: w1_def s_def)
qed

lemma phase1_keeps:
  assumes "distinct (map b_id (bots w))" and "distinct (map m_id (meetings w))"
    and "set bs \<subseteq> set (bots w)" and "distinct bs"
    and "b \<in> set (bots w)" and "b \<notin> set bs"
  shows "b \<in> set (bots (fold (sweepBot rt prov) bs w))"
  using assms
proof (induction bs arbitrary: w)
  case Nil
  then show ?case by simp
next
  case (Cons a bs)
  let ?w1 = "sweepBot rt prov a w"
  have ain: "a \<in> set (bots w)" using Cons.prems(3) by simp
  have e1: "evolves w ?w1" by (rule sweepBot_evolves[OF ain Cons.prems(1,2)])
  have d1: "distinct (map b_id (bots ?w1))" "distinct (map m_id (meetings ?w1))"
    using evolves_ids[OF e1] Cons.prems(1,2) by simp_all
  from sweepBot_tables[OF ain Cons.prems(1,2), where rt = rt and prov = prov] obtain s where
    bs1: "bots ?w1 = setBotStatus (b_id a) s (bots w)" by blast
  have keep: "\<And>r. r \<in> set (bots w) \<Longrightarrow> r \<noteq> a \<Longrightarrow> r \<in> set (bots ?w1)"
  proof -
    fix r assume rin: "r \<in> set (bots w)" and "r \<noteq> a"
    then have "b_id r \<noteq> b_id a" using same_id_same_row[OF Cons.prems(1) ain rin] by auto
    then show "r \<in> set (bots ?w1)" unfolding bs1 using rin by (rule_tac setBotStatus_keeps)
  qed
  have sub: "set bs \<subseteq> set (bots ?w1)" using keep Cons.prems(3,4) by auto
  have bin: "b \<in> set (bots ?w1)" using keep Cons.prems(5,6) by auto
  show ?case using Cons.IH[OF d1 sub _ bin] Cons.prems(4,6) by simp
qed

lemma phase2_bots: "bots (fold (sweepCompleted rt prov clock) cs w) = bots w"
proof (induction cs arbitrary: w)
  case Nil
  then show ?case by simp
next
  case (Cons c cs)
  have "bots (sweepCompleted rt prov clock c w) = bots w"
    unfolding sweepCompleted_def using processMeeting_tables by blast
  then show ?case using Cons.IH by simp
qed

lemma sweep_keeps_terminal:
  assumes "distinct (map b_id (bots w))" and "distinct (map m_id (meetings w))"
    and "b \<in> set (bots w)" and "terminalStatus (b_status b)"
  shows "getRecallBot (b_id b) (sweep rt prov clock w) = Some b"
proof -
  have "distinct (bots w)" using assms(1) by (rule distinct_map[THEN iffD1, THEN conjunct1])
  moreover have "b \<notin> set (activeBots rt w)"
    using assms(4) by (auto simp: activeBots_def terminalStatus_def select_bots)
  ultimately have "b \<in> set (bots (fold (sweepBot rt prov) (activeBots rt w) w))"
    using assms(1,2,3) by (intro phase1_keeps) (auto simp: activeBots_def select_bots)
  then have bin: "b \<in> set (bots (sweep rt prov clock w))"
    by (simp add: sweep_def Let_def phase2_bots)
  have "distinct (map b_id (bots (sweep rt prov clock w)))"
    using evolves_ids(1)[OF sweep_evolves[OF assms(1,2)]] assms(1) by simp
  from find_bot_by_id[OF this bin] show ?thesis by (simp add: getRecallBot_def)
qed

subsection \<open>The sample runs\<close>

lemma reachable_samples:
  "reachable rt afterFailure" "reachable rt afterRetry" "reachable rt afterEnable"
  unfolding afterFailure_def afterRetry_def afterEnable_def enable_def
  by (intro reachable.intros)+

lemma reachable_observing: "reachable sampleRuntime w \<Longrightarrow> reachable sampleRuntime (observing code w)"
  unfolding observing_def by (rule reachable.r_sweep)

lemma reachable_afterFetch: "reachable sampleRuntime afterFetch"
  unfolding afterFetch_def by (intro reachable.r_sweep reachable_samples)

lemma sample_tables:
  "bots afterEnable = [sampleBot ''scheduled'']"
  "bots (observing ''in_call_recording'' afterEnable) = [sampleBot ''recording'']"
  "bots afterFetch = [sampleBot ''completed'']"
  "meetings afterFetch = [sampleMeeting ''completed'' (Some ''Hello world'')]"
  by code_simp+

section \<open>Status mapping\<close>

text \<open>
  Claim C2. When the snapshot carries a non-empty \<^verbatim>\<open>status_changes\<close> array, the record
  that \<^verbatim>\<open>updateBotStatus\<close> returns and the stored row of the bot carry the status that
  the table of the specification gives for the \<^verbatim>\<open>code\<close> of the last entry, and the
  current status when the table has no line for it (also when the entry has no code or is
  \<^verbatim>\<open>null\<close>). Nothing else of the snapshot and none of the earlier entries enters the
  result, the meetings are untouched, and the call returns.
\<close>

theorem updateBotStatus_follows_table:
  assumes "prov (length (requests w)) (GetBot (b_recallBotId recallBot)) = Inr botStatus"
    and "propOf botStatus ''status_changes'' = Some (JArr (earlier @ [latest]))"
    and "recallBot \<in> set (bots w)"
    and "distinct (map b_id (bots w))"
  shows "fst (updateBotStatus prov recallBot w) =
           Some (recallBot\<lparr>b_status := tableStatus (propOf latest ''code'') (b_status recallBot)\<rparr>)
       \<and> bots (snd (updateBotStatus prov recallBot w)) =
           map (\<lambda>b. if b_id b = b_id recallBot
                     then b\<lparr>b_status := tableStatus (propOf latest ''code'') (b_status recallBot)\<rparr>
                     else b) (bots w)
       \<and> meetings (snd (updateBotStatus prov recallBot w)) = meetings w"
proof -
  define s where "s = tableStatus (propOf latest ''code'') (b_status recallBot)"
  define w1 where "w1 = w\<lparr>requests := requests w @ [GetBot (b_recallBotId recallBot)]\<rparr>"
  have run: "updateBotStatus prov recallBot w =
      (if s \<noteq> b_status recallBot then updateRecallBot (b_id recallBot) s w1
       else (Some recallBot, w1))"
    using updateBotStatus_latest[of prov w recallBot botStatus earlier latest] assms(1,2)
    by (simp add: Let_def s_def w1_def)
  show ?thesis
  proof (cases "s = b_status recallBot")
    case True
    have "fst (updateBotStatus prov recallBot w) = Some (recallBot\<lparr>b_status := s\<rparr>)"
      using run True by simp
    moreover have "bots (snd (updateBotStatus prov recallBot w)) =
        map (\<lambda>b. if b_id b = b_id recallBot then b\<lparr>b_status := s\<rparr> else b) (bots w)"
    proof -
      have "bots (snd (updateBotStatus prov recallBot w)) = bots w"
        using run True by (simp add: w1_def)
      also have "bots w =
          map (\<lambda>b. if b_id b = b_id recallBot then b\<lparr>b_status := s\<rparr> else b) (bots w)"
        unfolding True by (rule map_id_same[OF assms(4,3), symmetric])
      finally show ?thesis .
    qed
    moreover have "meetings (snd (updateBotStatus prov recallBot w)) = meetings w"
      using run True by (simp add: w1_def)
    ultimately show ?thesis unfolding s_def by blast
  next
    case False
    have "fst (updateBotStatus prov recallBot w) = Some (recallBot\<lparr>b_status := s\<rparr>)"
      using run False find_id_map[OF assms(4,3)] by (simp add: updateRecallBot_def w1_def Let_def)
    moreover have "bots (snd (updateBotStatus prov recallBot w)) =
        map (\<lambda>b. if b_id b = b_id recallBot then b\<lparr>b_status := s\<rparr> else b) (bots w)"
      using run False by (simp add: updateRecallBot_def w1_def Let_def)
    moreover have "meetings (snd (updateBotStatus prov recallBot w)) = meetings w"
      using run False by (simp add: updateRecallBot_def w1_def Let_def)
    ultimately show ?thesis unfolding s_def by blast
  qed
qed

theorem updateBotStatus_follows_table_witness:
  "fst (updateBotStatus (answering (snapshot ''in_call_recording'' []))
          (sampleBot ''joining'') (sampleWorld ''joining'' ''scheduled'' None))
     = Some (sampleBot ''recording'')
   \<and> bots (snd (updateBotStatus (answering (snapshot ''in_call_recording'' []))
          (sampleBot ''joining'') (sampleWorld ''joining'' ''scheduled'' None)))
     = [sampleBot ''recording'']"
  using updateBotStatus_follows_table[of "answering (snapshot ''in_call_recording'' [])"
      "sampleWorld ''joining'' ''scheduled'' None" "sampleBot ''joining''"
      "snapshot ''in_call_recording'' []" "[JObj [(''code'', JStr ''ready'')]]"
      "JObj [(''code'', JStr ''in_call_recording'')]"]
  by (simp add: answering_def snapshot_def snapshotOf_def sampleWorld_def sampleBot_def
      tableStatus_def)

text \<open>
  Claim C9. If the status request throws, or the snapshot has no \<^verbatim>\<open>status_changes\<close>,
  one that is not an array, or an empty one, \<^verbatim>\<open>updateBotStatus\<close> returns its argument
  and leaves both tables and the write log as they were: the request is all that
  happened.
\<close>

theorem updateBotStatus_atomic_on_error:
  assumes "prov (length (requests w)) (GetBot (b_recallBotId recallBot)) = resp"
    and "(\<exists>e. resp = Inl e) \<or>
         (\<exists>botStatus. resp = Inr botStatus \<and>
            (propOf botStatus ''status_changes'' = None
             \<or> \<not> isArray (propOf botStatus ''status_changes'')
             \<or> propOf botStatus ''status_changes'' = Some (JArr [])))"
  shows "updateBotStatus prov recallBot w =
           (Some recallBot, w\<lparr>requests := requests w @ [GetBot (b_recallBotId recallBot)]\<rparr>)"
  using assms
  by (auto simp: updateBotStatus_def getBotStatus_def request_def get_Some split: sum.splits)

theorem updateBotStatus_atomic_on_error_witness:
  "updateBotStatus failing (sampleBot ''joining'') (sampleWorld ''joining'' ''scheduled'' None)
     = (Some (sampleBot ''joining''),
        (sampleWorld ''joining'' ''scheduled'' None)\<lparr>requests := [GetBot ''rb-1'']\<rparr>)
   \<and> updateBotStatus (answering (JObj [(''status_changes'', JArr [])])) (sampleBot ''joining'')
        (sampleWorld ''joining'' ''scheduled'' None)
     = (Some (sampleBot ''joining''),
        (sampleWorld ''joining'' ''scheduled'' None)\<lparr>requests := [GetBot ''rb-1'']\<rparr>)"
  using updateBotStatus_atomic_on_error[of failing "sampleWorld ''joining'' ''scheduled'' None"
      "sampleBot ''joining''" "Inl RequestFailed"]
    updateBotStatus_atomic_on_error[of "answering (JObj [(''status_changes'', JArr [])])"
      "sampleWorld ''joining'' ''scheduled'' None"
      "sampleBot ''joining''" "Inr (JObj [(''status_changes'', JArr [])])"]
  by (simp add: failing_def answering_def sampleWorld_def sampleBot_def)

text \<open>
  Claim C1, as amended. For a stored bot and any sequence of snapshots run through
  \<^verbatim>\<open>updateBotStatus\<close>, the stored status at the end is the table applied to the latest
  code of each snapshot in turn, starting from the stored status: a recognised code sets
  its status whether that is later or earlier in
  \<open>scheduled \<rightarrow> joining \<rightarrow> recording \<rightarrow> {completed | failed}\<close> than the current one, any
  other snapshot keeps the status. What a reachable state does guarantee is that a sweep
  leaves the row of a bot in \<open>completed\<close> or \<open>failed\<close> as it is, since it polls only
  bots in \<open>scheduled\<close>, \<open>joined\<close>, \<open>joining\<close> or \<open>recording\<close>.
\<close>

theorem status_walk_follows_codes:
  assumes "reachable rt w" and "b \<in> set (bots w)"
  shows "map_option b_status (getRecallBot (b_id b) (pollAll snaps (b_id b) w))
           = Some (foldl (\<lambda>s snap. tableStatus (latestCode snap) s) (b_status b) snaps)
       \<and> (terminalStatus (b_status b)
            \<longrightarrow> getRecallBot (b_id b) (sweep rt prov clock w) = Some b)"
proof -
  have wf: "wellFormed w" using assms(1) by (rule reachable_wellFormed)
  then have d: "distinct (map b_id (bots w))" "distinct (map m_id (meetings w))"
    by (simp_all add: wellFormed_def)
  show ?thesis
    using pollAll_status[OF d(1) assms(2)] sweep_keeps_terminal[OF d assms(2)] by blast
qed

theorem status_walk_follows_codes_witness:
  "map_option b_status
     (getRecallBot 1 (pollAll [snapshot ''ready'' [], snapshot ''no_such_code'' []] 1
        (observing ''in_call_recording'' afterEnable))) = Some ''scheduled''
   \<and> getRecallBot 1 (observing ''in_call_recording'' afterFetch) = Some (sampleBot ''completed'')"
proof -
  have r1: "reachable sampleRuntime (observing ''in_call_recording'' afterEnable)"
    by (intro reachable_observing reachable_samples)
  have b1: "sampleBot ''recording'' \<in> set (bots (observing ''in_call_recording'' afterEnable))"
    by (simp add: sample_tables)
  have b2: "sampleBot ''completed'' \<in> set (bots afterFetch)"
    by (simp add: sample_tables)
  have f: "foldl (\<lambda>s snap. tableStatus (latestCode snap) s) (b_status (sampleBot ''recording''))
      [snapshot ''ready'' [], snapshot ''no_such_code'' []] = ''scheduled''"
    by (simp add: latestCode_def snapshot_def snapshotOf_def tableStatus_def sampleBot_def)
  show ?thesis
    using status_walk_follows_codes[OF r1 b1,
        of "[snapshot ''ready'' [], snapshot ''no_such_code'' []]", THEN conjunct1]
      status_walk_follows_codes[OF reachable_afterFetch b2,
        of "[]" "answering (snapshot ''in_call_recording'' [])" "fixedClock 0", THEN conjunct2]
      f
    by (simp add: sampleBot_def terminalStatus_def observing_def)
qed

text \<open>
  The claim as stated fails: a bot that a sweep has moved to \<open>recording\<close> is moved
  back to \<open>scheduled\<close> by the next sweep when the provider's latest code is
  \<open>ready\<close>.
\<close>

theorem status_moves_backward_counterexample:
  "map b_status (bots (observing ''in_call_recording'' afterEnable)) = [''recording'']
   \<and> map b_status (bots (observing ''ready'' (observing ''in_call_recording'' afterEnable)))
       = [''scheduled'']
   \<and> botRank ''scheduled'' < botRank ''recording''"
  by code_simp

section \<open>Propagation to the meeting\<close>

text \<open>
  Claim C3. The source propagates \<open>recording\<close>, \<open>completed\<close> and \<open>failed\<close> as the
  claim says, and writes the meeting only when its status changes; but its first branch
  tests for the status \<open>joined\<close>, which \<^verbatim>\<open>updateBotStatus\<close> never writes. What the
  code does instead of the claim's \<open>joining \<rightarrow> in_progress\<close>: whenever a round of the
  sweep leaves a bot in \<open>joining\<close>, the meetings table is unchanged.
\<close>

theorem joining_is_not_propagated:
  assumes "reachable rt w" and "b \<in> set (bots w)" and "b_status b \<noteq> ''joining''"
    and "map_option b_status (getRecallBot (b_id b) (sweepBot rt prov b w)) = Some ''joining''"
  shows "meetings (sweepBot rt prov b w) = meetings w"
proof -
  have wf: "wellFormed w" using assms(1) by (rule reachable_wellFormed)
  then have d: "distinct (map b_id (bots w))" "distinct (map m_id (meetings w))"
    by (simp_all add: wellFormed_def)
  from sweepBot_tables[OF assms(2) d, where rt = rt and prov = prov] obtain s where
    bs: "bots (sweepBot rt prov b w) = setBotStatus (b_id b) s (bots w)"
    and ms: "meetings (sweepBot rt prov b w) = meetings w
         \<or> (\<exists>m\<in>set (meetings w). s \<noteq> b_status b
               \<and> m_calendarEventId m = b_calendarEventId b
               \<and> meetings (sweepBot rt prov b w)
                   = setMeetingStatus (m_id m) (propagate s (m_status m)) (meetings w))"
    by blast
  have "getRecallBot (b_id b) (sweepBot rt prov b w) = Some (b\<lparr>b_status := s\<rparr>)"
    unfolding getRecallBot_def bs setBotStatus_def by (rule find_id_map[OF d(1) assms(2)])
  with assms(4) have s: "s = ''joining''" by simp
  from ms show ?thesis
  proof
    assume "meetings (sweepBot rt prov b w) = meetings w"
    then show ?thesis .
  next
    assume "\<exists>m\<in>set (meetings w). s \<noteq> b_status b
               \<and> m_calendarEventId m = b_calendarEventId b
               \<and> meetings (sweepBot rt prov b w)
                   = setMeetingStatus (m_id m) (propagate s (m_status m)) (meetings w)"
    then obtain m where min: "m \<in> set (meetings w)"
      and mv: "meetings (sweepBot rt prov b w)
                   = setMeetingStatus (m_id m) (propagate s (m_status m)) (meetings w)"
      by blast
    have "propagate ''joining'' (m_status m) = m_status m" by (simp add: propagate_def)
    moreover have "setMeetingStatus (m_id m) (m_status m) (meetings w) = meetings w"
      by (rule setMeetingStatus_same[OF d(2) min])
    ultimately show ?thesis using mv s by simp
  qed
qed

theorem joining_is_not_propagated_witness:
  "meetings (sweepBot sampleRuntime (answering (snapshot ''joining_call'' []))
      (sampleBot ''scheduled'') afterEnable) = meetings afterEnable
   \<and> map b_status (bots (observing ''joining_call'' afterEnable)) = [''joining'']
   \<and> map m_status (meetings (observing ''joining_call'' afterEnable)) = [''scheduled'']"
proof -
  have b: "sampleBot ''scheduled'' \<in> set (bots afterEnable)" by (simp add: sample_tables)
  have n: "b_status (sampleBot ''scheduled'') \<noteq> ''joining''" by (simp add: sampleBot_def)
  have j: "map_option b_status (getRecallBot (b_id (sampleBot ''scheduled''))
      (sweepBot sampleRuntime (answering (snapshot ''joining_call'' []))
         (sampleBot ''scheduled'') afterEnable))
      = Some ''joining''"
    by code_simp
  have e: "map b_status (bots (observing ''joining_call'' afterEnable)) = [''joining'']"
    "map m_status (meetings (observing ''joining_call'' afterEnable)) = [''scheduled'']"
    by code_simp+
  show ?thesis
    using joining_is_not_propagated[OF reachable_samples(3) b n j] e by simp
qed

text \<open>
  Claim C4, as amended. In a coherent state a sweep moves no meeting backward in
  \<open>scheduled \<rightarrow> in_progress \<rightarrow> {completed | failed}\<close>, whatever the provider answers and
  in whatever order the database returns rows, and the state after the sweep is coherent
  again. The empty state is coherent, and the toggle handler keeps a state coherent when
  the event has no meeting yet, or only meetings that are \<open>scheduled\<close> or
  \<open>in_progress\<close>. The code has no comparison with the meeting's current status: the
  property rests on the sweep not polling terminal bots and on every meeting that the
  lookup may find for a polled bot being open.
\<close>

theorem sweep_never_downgrades_coherent:
  "(coherent w \<longrightarrow>
      list_all2 rankStep (meetings w) (meetings (sweep rt prov clock w))
      \<and> coherent (sweep rt prov clock w))
   \<and> (coherent w \<and> openMeetings (e_id ev) w \<longrightarrow>
        coherent (toggleRecording ev en uid bj now resp w))
   \<and> coherent init"
proof (intro conjI impI)
  assume "coherent w"
  then show "list_all2 rankStep (meetings w) (meetings (sweep rt prov clock w))"
    and "coherent (sweep rt prov clock w)"
    using sweep_coherent by blast+
next
  assume "coherent w \<and> openMeetings (e_id ev) w"
  then show "coherent (toggleRecording ev en uid bj now resp w)"
    using toggle_coherent by blast
next
  show "coherent init"
    by (simp add: coherent_def wellFormed_def init_def)
qed

theorem sweep_never_downgrades_coherent_witness:
  "coherent afterEnable
   \<and> list_all2 rankStep (meetings afterEnable)
        (meetings (sweep sampleRuntime helloProvider (fixedClock (minutesAfter 10)) afterEnable))
   \<and> coherent (sweep sampleRuntime helloProvider (fixedClock (minutesAfter 10)) afterEnable)"
proof -
  have i: "coherent init"
    using sweep_never_downgrades_coherent[of init] by blast
  have n: "openMeetings (e_id sampleEvent) init"
    by (simp add: openMeetings_def meetingsFor_def init_def)
  have c: "coherent afterEnable"
    unfolding afterEnable_def enable_def
    using sweep_never_downgrades_coherent[of init _ _ _ sampleEvent] i n by blast
  show ?thesis
    using sweep_never_downgrades_coherent[of afterEnable sampleRuntime helloProvider
        "fixedClock (minutesAfter 10)"] c by blast
qed

text \<open>
  The claim as stated fails in a reachable state: after a failed attempt to enable
  recording and a successful second one, the event has two meetings, the lookup by
  calendar event finds the meeting of the failed attempt (its row was written before the
  other one), and the sweep that sees the bot recording moves that meeting from
  \<open>failed\<close> to \<open>in_progress\<close>.
\<close>

theorem failed_meeting_reopened_counterexample:
  "reachable sampleRuntime afterRetry
   \<and> map m_status (meetings afterRetry) = [''failed'', ''scheduled'']
   \<and> map_option m_id (getMeetingByCalendarEventId sampleRuntime 42 afterRetry) = Some 1
   \<and> map m_status (meetings (observing ''in_call_recording'' afterRetry))
       = [''in_progress'', ''scheduled'']
   \<and> meetingRank ''in_progress'' < meetingRank ''failed''"
proof -
  have "map m_status (meetings afterRetry) = [''failed'', ''scheduled'']
   \<and> map_option m_id (getMeetingByCalendarEventId sampleRuntime 42 afterRetry) = Some 1
   \<and> map m_status (meetings (observing ''in_call_recording'' afterRetry))
       = [''in_progress'', ''scheduled'']
   \<and> meetingRank ''in_progress'' < meetingRank ''failed''"
    by code_simp
  then show ?thesis using reachable_samples(2) by blast
qed

section \<open>Transcript readiness\<close>

text \<open>
  Claim C10, as amended. \<^verbatim>\<open>getTranscript\<close> answers \<^verbatim>\<open>null\<close> after its status request alone, with no
  transcript endpoint probed, whenever the snapshot it reads has no recordings array, an
  empty one, or a first recording without \<^verbatim>\<open>transcription_completed_at\<close>. So when
  \<^verbatim>\<open>processMeeting\<close> passes its gates (in particular by the branch that waits five
  minutes after the recording because the transcription has not completed) and the
  snapshot that \<^verbatim>\<open>getTranscript\<close> reads next is still without a completed
  transcription, the call ends after the two status requests and writes nothing.
\<close>

theorem getTranscript_needs_completed_transcription:
  "(prov (length (requests w)) (GetBot botId) = Inr snap \<and> noCompletedTranscription snap
      \<longrightarrow> getTranscript prov botId w = (None, w\<lparr>requests := requests w @ [GetBot botId]\<rparr>))
   \<and> (b_status recallBot = ''completed''
       \<and> getMeetingByCalendarEventId rt (b_calendarEventId recallBot) w = Some meeting
       \<and> m_transcript meeting = None
       \<and> prov (length (requests w)) (GetBot (b_recallBotId recallBot)) = Inr snap1
       \<and> readyToFetch rt now snap1 = Inr True
       \<and> prov (Suc (length (requests w))) (GetBot (b_recallBotId recallBot)) = Inr snap2
       \<and> noCompletedTranscription snap2
      \<longrightarrow> processMeeting rt prov now recallBot w
            = w\<lparr>requests := requests w @ [GetBot (b_recallBotId recallBot),
                                              GetBot (b_recallBotId recallBot)]\<rparr>)"
proof (intro conjI impI)
  assume "prov (length (requests w)) (GetBot botId) = Inr snap \<and> noCompletedTranscription snap"
  then show "getTranscript prov botId w = (None, w\<lparr>requests := requests w @ [GetBot botId]\<rparr>)"
    using getTranscript_nothing by blast
next
  assume h: "b_status recallBot = ''completed''
       \<and> getMeetingByCalendarEventId rt (b_calendarEventId recallBot) w = Some meeting
       \<and> m_transcript meeting = None
       \<and> prov (length (requests w)) (GetBot (b_recallBotId recallBot)) = Inr snap1
       \<and> readyToFetch rt now snap1 = Inr True
       \<and> prov (Suc (length (requests w))) (GetBot (b_recallBotId recallBot)) = Inr snap2
       \<and> noCompletedTranscription snap2"
  define w1 where "w1 = w\<lparr>requests := requests w @ [GetBot (b_recallBotId recallBot)]\<rparr>"
  have g: "getTranscript prov (b_recallBotId recallBot) w1 =
      (None, w1\<lparr>requests := requests w1 @ [GetBot (b_recallBotId recallBot)]\<rparr>)"
    using h by (intro getTranscript_nothing[where snap = snap2]) (simp_all add: w1_def)
  show "processMeeting rt prov now recallBot w
            = w\<lparr>requests := requests w @ [GetBot (b_recallBotId recallBot),
                                              GetBot (b_recallBotId recallBot)]\<rparr>"
    using h g by (simp add: processMeeting_def getBotStatus_def request_def w1_def)
qed

theorem getTranscript_needs_completed_transcription_witness:
  "getTranscript (answering (snapshot ''done'' [sampleRecording None])) ''rb-1''
      (sampleWorld ''completed'' ''completed'' None)
     = (None, (sampleWorld ''completed'' ''completed'' None)\<lparr>requests := [GetBot ''rb-1'']\<rparr>)
   \<and> readyToFetch sampleRuntime (minutesAfter 10) (snapshot ''done'' [sampleRecording None])
       = Inr True
   \<and> processMeeting sampleRuntime (answering (snapshot ''done'' [sampleRecording None]))
        (minutesAfter 10) (sampleBot ''completed'') (sampleWorld ''completed'' ''completed'' None)
     = (sampleWorld ''completed'' ''completed'' None)
         \<lparr>requests := [GetBot ''rb-1'', GetBot ''rb-1'']\<rparr>"
proof -
  let ?snap = "snapshot ''done'' [sampleRecording None]"
  let ?w = "sampleWorld ''completed'' ''completed'' None"
  have n: "noCompletedTranscription ?snap"
    by (simp add: noCompletedTranscription_def snapshot_def snapshotOf_def sampleRecording_def)
  have r: "readyToFetch sampleRuntime (minutesAfter 10) ?snap = Inr True"
    by (simp add: readyToFetch_def snapshot_def snapshotOf_def sampleRecording_def
        sampleRuntime_def minutesAfter_def)
  have m: "getMeetingByCalendarEventId sampleRuntime
        (b_calendarEventId (sampleBot ''completed'')) ?w
      = Some (sampleMeeting ''completed'' None)"
    by (simp add: getMeetingByCalendarEventId_def selectMeetings_def sampleWorld_def
        sampleBot_def sampleMeeting_def)
  show ?thesis
    using getTranscript_needs_completed_transcription[of "answering ?snap" ?w "''rb-1''" ?snap
        "sampleBot ''completed''" sampleRuntime "sampleMeeting ''completed'' None" ?snap
        "minutesAfter 10" ?snap] n r m
    by (simp add: answering_def sampleBot_def sampleMeeting_def sampleWorld_def)
qed

text \<open>
  The claim as stated fails: \<^verbatim>\<open>getTranscript\<close> makes a status request of its own. When
  the first answer has no \<^verbatim>\<open>transcription_completed_at\<close> and a recording completed
  ten minutes ago, \<^verbatim>\<open>processMeeting\<close> takes the five-minute branch; when the second
  answer reports the transcription as completed, the transcript is fetched and stored
  in that same call.
\<close>

theorem snapshot_changes_between_reads_counterexample:
  "requests (sampleWorld ''completed'' ''completed'' None) = []
   \<and> changingProvider 0 (GetBot ''rb-1'') = Inr (snapshot ''done'' [sampleRecording None])
   \<and> noCompletedTranscription (snapshot ''done'' [sampleRecording None])
   \<and> dateMs sampleRuntime (propOf (sampleRecording None) ''completed_at'')
       = Some (minutesAfter 0)
   \<and> readyToFetch sampleRuntime (minutesAfter 10) (snapshot ''done'' [sampleRecording None])
       = Inr True
   \<and> meetings (processMeeting sampleRuntime changingProvider (minutesAfter 10)
         (sampleBot ''completed'') (sampleWorld ''completed'' ''completed'' None))
       = [sampleMeeting ''completed'' (Some ''Hello world'')]
   \<and> requests (processMeeting sampleRuntime changingProvider (minutesAfter 10)
         (sampleBot ''completed'') (sampleWorld ''completed'' ''completed'' None))
       = [GetBot ''rb-1'', GetBot ''rb-1'', BotTranscript ''rb-1'']"
  by code_simp




text \<open>
  Claim C5. In every state reached from empty tables by the toggle handler, sweeps and
  manual fetches, a meeting whose transcript is set keeps it through a further sweep and
  through a further call of \<^verbatim>\<open>processMeeting\<close>, and neither writes a transcript to that
  meeting again. (The stored transcripts are never empty strings there, so set and
  non-null agree.)
\<close>

theorem transcript_immutable:
  assumes "reachable rt w" and "m \<in> set (meetings w)" and "m_transcript m = Some t"
  shows "map_option m_transcript (getMeeting (m_id m) (sweep rt prov clock w)) = Some (Some t)
       \<and> m_id m \<notin> set (transcriptWrites
                          (drop (length (writes w)) (writes (sweep rt prov clock w))))
       \<and> map_option m_transcript (getMeeting (m_id m) (processMeeting rt prov now b w))
           = Some (Some t)
       \<and> m_id m \<notin> set (transcriptWrites
                          (drop (length (writes w)) (writes (processMeeting rt prov now b w))))"
proof -
  have wf: "wellFormed w" using assms(1) by (rule reachable_wellFormed)
  then have d: "distinct (map b_id (bots w))" "distinct (map m_id (meetings w))"
    and ne: "t \<noteq> []"
    using assms(2,3) by (auto simp: wellFormed_def)
  from evolves_keeps_transcript[OF sweep_evolves[OF d] d(2) assms(2,3) ne]
    evolves_keeps_transcript[OF processMeeting_evolves[OF d(2)] d(2) assms(2,3) ne]
  show ?thesis by blast
qed

theorem transcript_immutable_witness:
  "map_option m_transcript
      (getMeeting 1 (sweep sampleRuntime otherProvider (fixedClock (minutesAfter 20)) afterFetch))
     = Some (Some ''Hello world'')
   \<and> map_option m_transcript
      (getMeeting 1 (processMeeting sampleRuntime otherProvider (minutesAfter 20)
          (sampleBot ''completed'') afterFetch))
     = Some (Some ''Hello world'')"
proof -
  have m: "sampleMeeting ''completed'' (Some ''Hello world'') \<in> set (meetings afterFetch)"
    by (simp add: sample_tables)
  have t: "m_transcript (sampleMeeting ''completed'' (Some ''Hello world''))
      = Some ''Hello world''"
    by (simp add: sampleMeeting_def)
  show ?thesis
    using transcript_immutable[OF reachable_afterFetch m t, of otherProvider
        "fixedClock (minutesAfter 20)" "minutesAfter 20" "sampleBot ''completed''"]
    by (simp add: sampleMeeting_def)
qed

section \<open>Enabling recording\<close>

text \<open>
  Claim C6, as amended. In every reachable state an event has at most one bot, and no
  more meetings linked to a bot than it has bots; once a bot is stored for the event the
  toggle handler changes nothing. The lookup is on bots only: an invocation after a failed
  attempt finds none and creates a further meeting.
\<close>

theorem one_bot_per_event:
  assumes "reachable rt w"
  shows "length (botsFor e w) \<le> 1
     \<and> length (linkedMeetingsFor e w) \<le> length (botsFor e w)
     \<and> (getRecallBotByCalendarEventId (e_id ev) w \<noteq> None
          \<longrightarrow> toggleRecording ev en uid bj now resp w = w)"
proof -
  have "perEvent w" using assms by (rule reachable_perEvent)
  moreover have "getRecallBotByCalendarEventId (e_id ev) w \<noteq> None
          \<longrightarrow> toggleRecording ev en uid bj now resp w = w"
    by (auto simp: toggleRecording_def setupRecording_def)
  ultimately show ?thesis by (simp add: perEvent_def)
qed

theorem one_bot_per_event_witness:
  "length (botsFor 42 afterRetry) \<le> 1
   \<and> length (linkedMeetingsFor 42 afterRetry) \<le> length (botsFor 42 afterRetry)
   \<and> enable (Inr ''rb-2'') afterRetry = afterRetry"
proof -
  have b: "getRecallBotByCalendarEventId (e_id sampleEvent) afterRetry \<noteq> None"
    by code_simp
  show ?thesis
    using one_bot_per_event[OF reachable_samples(2)[of sampleRuntime], where e = 42
        and ev = sampleEvent and en = True and uid = 7 and bj = None and now = 1717250000000
        and resp = "Inr ''rb-2''"] b
    by (simp add: enable_def)
qed

text \<open>
  The claim as stated fails: a failed attempt followed by a successful one leaves two
  meetings for the event, the first \<open>failed\<close> and the second \<open>scheduled\<close>.
\<close>

theorem second_meeting_counterexample:
  "map b_calendarEventId (bots afterRetry) = [42]
   \<and> map m_calendarEventId (meetings afterRetry) = [42, 42]
   \<and> map m_status (meetings afterRetry) = [''failed'', ''scheduled'']
   \<and> length (meetings afterFailure) = 1"
  by code_simp

text \<open>
  Claim C8. When the handler reaches the creation (recording enabled, no bot stored for
  the event, join time in the future) and \<^verbatim>\<open>createBot\<close> throws, the tables afterwards
  are the old ones plus the new meeting with status \<open>failed\<close> and the transcript
  \<open>Failed to create recording bot\<close>, and no bot is added. In every reachable state a
  meeting in status \<open>scheduled\<close> has a bot stored for its event.
\<close>

theorem failed_setup_marks_meeting:
  assumes "reachable rt w"
  shows "noOrphan w
     \<and> (en \<and> e_id ev \<noteq> 0 \<and> getRecallBotByCalendarEventId (e_id ev) w = None
        \<and> now < e_startTime ev - joinMinutes bj * 60000 \<and> createBotFails ev resp
        \<longrightarrow> meetings (toggleRecording ev en uid bj now resp w) =
              meetings w @ [(meetingRow uid ev w)\<lparr>m_status := ''failed'',
                   m_transcript := Some ''Failed to create recording bot''\<rparr>]
          \<and> bots (toggleRecording ev en uid bj now resp w) = bots w)"
proof (intro conjI impI)
  show "noOrphan w" using assms by (rule reachable_noOrphan)
next
  assume h: "en \<and> e_id ev \<noteq> 0 \<and> getRecallBotByCalendarEventId (e_id ev) w = None
        \<and> now < e_startTime ev - joinMinutes bj * 60000 \<and> createBotFails ev resp"
  have fresh: "\<forall>m\<in>set (meetings w). m_id m < nextMeetingId w"
    using reachable_wellFormed[OF assms] by (simp add: wellFormed_def)
  from h have nb: "getRecallBotByCalendarEventId (e_id ev) w = None"
    and fut: "now < e_startTime ev - joinMinutes bj * 60000"
    and fails: "createBotFails ev resp" by simp_all
  from h have run: "toggleRecording ev en uid bj now resp w = setupRecording ev uid bj now resp w"
    by (simp add: toggle_runs)
  from setupRecording_tables[OF fresh nb fut, where uid = uid and resp = resp] fails
  show "meetings (toggleRecording ev en uid bj now resp w) =
              meetings w @ [(meetingRow uid ev w)\<lparr>m_status := ''failed'',
                   m_transcript := Some ''Failed to create recording bot''\<rparr>]"
    and "bots (toggleRecording ev en uid bj now resp w) = bots w"
    unfolding run by (simp_all add: placeholder_def)
qed

theorem failed_setup_marks_meeting_witness:
  "noOrphan afterFailure
   \<and> map m_status (meetings afterFailure) = [''failed'']
   \<and> map m_transcript (meetings afterFailure) = [Some ''Failed to create recording bot'']
   \<and> bots afterFailure = []"
proof -
  have n: "getRecallBotByCalendarEventId (e_id sampleEvent) init = None"
    by (simp add: getRecallBotByCalendarEventId_def init_def)
  have f: "(1717250000000::int) < e_startTime sampleEvent - joinMinutes None * 60000"
    by (simp add: sampleEvent_def joinMinutes_def)
  have c: "createBotFails sampleEvent (Inl RequestFailed)" by (simp add: createBotFails_def)
  have i: "e_id sampleEvent \<noteq> 0" by (simp add: sampleEvent_def)
  show ?thesis
    using failed_setup_marks_meeting[OF reachable_samples(1)[of sampleRuntime], THEN conjunct1]
      failed_setup_marks_meeting[OF reachable.r_init[of sampleRuntime], where en = True
        and ev = sampleEvent and now = 1717250000000 and bj = None
        and resp = "Inl RequestFailed" and uid = 7, THEN conjunct2] n f c i
    by (simp add: afterFailure_def enable_def init_def meetingRow_def createMeeting_def
        sampleEvent_def)
qed

end
